theory Spec2Isabelle
  imports Complex_Main "HOL-Library.Sublist"
begin

section \<open>Text, as the downloader uses it\<close>

text \<open>
  Python \<open>str\<close> values (URLs, header values, file names) are modelled as \<open>string\<close>,
  read as ASCII text. The character classes and case mapping below are those of Python
  on the ASCII range: \<open>str.lower\<close>, \<open>str.strip\<close> and the \<open>re\<close> classes
  \<open>\\d\<close> and \<open>\\w\<close>. Payloads (\<open>response.content\<close>) are byte lists.
\<close>

type_synonym bytes = "char list"

definition code_of :: "char \<Rightarrow> nat" where
  "code_of c = of_char c"

definition is_digit :: "char \<Rightarrow> bool" where
  "is_digit c = (48 \<le> code_of c \<and> code_of c \<le> 57)"

definition is_upper :: "char \<Rightarrow> bool" where
  "is_upper c = (65 \<le> code_of c \<and> code_of c \<le> 90)"

definition is_lower :: "char \<Rightarrow> bool" where
  "is_lower c = (97 \<le> code_of c \<and> code_of c \<le> 122)"

text \<open>The class \<open>\\w\<close>: letters, digits and the underscore.\<close>

definition is_word :: "char \<Rightarrow> bool" where
  "is_word c = (is_digit c \<or> is_upper c \<or> is_lower c \<or> c = CHR ''_'')"

text \<open>What \<open>str.strip()\<close> removes: tab, LF, VT, FF, CR, FS, GS, RS, US and space.\<close>

definition is_space :: "char \<Rightarrow> bool" where
  "is_space c = ((9 \<le> code_of c \<and> code_of c \<le> 13) \<or> (28 \<le> code_of c \<and> code_of c \<le> 32))"

definition lower_char :: "char \<Rightarrow> char" where
  "lower_char c = (if is_upper c then char_of (code_of c + 32) else c)"

definition lower :: "string \<Rightarrow> string" where
  "lower s = map lower_char s"

definition strip :: "string \<Rightarrow> string" where
  "strip s = rev (dropWhile is_space (rev (dropWhile is_space s)))"

text \<open>
  \<open>s.split(sep)\<close> for a one-character separator: the pieces between the separators,
  never an empty list.
\<close>

fun split_on :: "char \<Rightarrow> string \<Rightarrow> string list" where
  "split_on sep [] = [] # []"
| "split_on sep (c # cs) =
     (if c = sep then [] # split_on sep cs
      else (case split_on sep cs of
              p # ps \<Rightarrow> (c # p) # ps
            | [] \<Rightarrow> [c] # []))"

text \<open>The operator \<open>sub in s\<close> on strings.\<close>

fun contains :: "string \<Rightarrow> string \<Rightarrow> bool" where
  "contains sub [] = (sub = [])"
| "contains sub (c # cs) = (prefix sub (c # cs) \<or> contains sub cs)"

text \<open>Decimal digits, for \<open>int(...)\<close> of a digit string and for \<open>f"{n}"\<close>.\<close>

definition digit_val :: "char \<Rightarrow> nat" where
  "digit_val c = code_of c - 48"

definition digit_char :: "nat \<Rightarrow> char" where
  "digit_char d = char_of (48 + d)"

definition py_int :: "string \<Rightarrow> nat" where
  "py_int ds = foldl (\<lambda>acc c. 10 * acc + digit_val c) 0 ds"

function str_nat :: "nat \<Rightarrow> string" where
  "str_nat n = (if n < 10 then [digit_char n] else str_nat (n div 10) @ [digit_char (n mod 10)])"
  by pat_completeness auto
termination
  by (relation "measure id") auto

declare str_nat.simps [simp del]

definition str_int :: "int \<Rightarrow> string" where
  "str_int i = (if i < 0 then CHR ''-'' # str_nat (nat (- i)) else str_nat (nat i))"

section \<open>Extension of the output file\<close>

definition content_type_map :: "(string \<times> string) list" where
  "content_type_map =
     [(''image/jpeg'', ''.jpg''),
      (''image/jpg'', ''.jpg''),
      (''image/png'', ''.png''),
      (''image/gif'', ''.gif''),
      (''image/webp'', ''.webp''),
      (''image/bmp'', ''.bmp''),
      (''image/tiff'', ''.tiff''),
      (''image/svg+xml'', ''.svg'')]"

definition url_extensions :: "string list" where
  "url_extensions = [''.jpg'', ''.jpeg'', ''.png'', ''.gif'', ''.webp'', ''.bmp'', ''.tiff'', ''.svg'']"

text \<open>The loop \<open>for ext in [...]\<close> of \<open>get_file_extension\<close>, with its default.\<close>

fun url_fallback :: "string \<Rightarrow> string list \<Rightarrow> string" where
  "url_fallback url_lower [] = ''.jpg''"
| "url_fallback url_lower (ext # exts) =
     (if contains ext url_lower then (if ext = ''.jpeg'' then ''.jpg'' else ext)
      else url_fallback url_lower exts)"

definition get_file_extension :: "string \<Rightarrow> string \<Rightarrow> string" where
  "get_file_extension content_type url =
     (let from_url = url_fallback (lower url) url_extensions in
      if content_type \<noteq> [] then
        (let main_type = lower (strip (hd (split_on CHR '';'' content_type))) in
         case map_of content_type_map main_type of
           Some ext \<Rightarrow> ext
         | None \<Rightarrow> from_url)
      else from_url)"






section \<open>Starting number, from the files already present\<close>

text \<open>
  \<open>re.search(r'image_(\\d+)\\.\\w+', img)\<close>. At one start position the literal
  \<open>image_\<close> must come first; \<open>\\d+\<close> is greedy, so the longest run of digits is tried
  first and shorter ones on backtracking; what follows must be a dot and at least one
  word character (a longer \<open>\\w+\<close> changes neither success nor group 1). The search tries
  the start positions from left to right and returns group 1 of the first match.
\<close>

definition rest_matches :: "string \<Rightarrow> bool" where
  "rest_matches t = (case t of c # w # _ \<Rightarrow> c = CHR ''.'' \<and> is_word w | _ \<Rightarrow> False)"

fun digits_backtrack :: "string \<Rightarrow> nat \<Rightarrow> string option" where
  "digits_backtrack r 0 = None"
| "digits_backtrack r (Suc k) =
     (if rest_matches (drop (Suc k) r) then Some (take (Suc k) r) else digits_backtrack r k)"

definition match_here :: "string \<Rightarrow> string option" where
  "match_here s =
     (if prefix ''image_'' s
      then (let r = drop (length ''image_'') s
            in digits_backtrack r (length (takeWhile is_digit r)))
      else None)"

fun re_search :: "string \<Rightarrow> string option" where
  "re_search [] = match_here []"
| "re_search (c # cs) =
     (case match_here (c # cs) of Some g \<Rightarrow> Some g | None \<Rightarrow> re_search cs)"

text \<open>\<open>int(match.group(1))\<close> when the search succeeds.\<close>

definition matched_number :: "string \<Rightarrow> nat option" where
  "matched_number img = map_option py_int (re_search img)"

text \<open>The loop over \<open>os.listdir(download_path)\<close> that keeps the largest number seen.\<close>

fun scan_existing :: "nat \<Rightarrow> string list \<Rightarrow> nat" where
  "scan_existing max_num [] = max_num"
| "scan_existing max_num (img # imgs) =
     (case matched_number img of
        Some num \<Rightarrow> scan_existing (if num > max_num then num else max_num) imgs
      | None \<Rightarrow> scan_existing max_num imgs)"

definition starting_num :: "string list \<Rightarrow> nat" where
  "starting_num existing_images = scan_existing 0 existing_images + 1"

text \<open>The numbers that the names of a listing carry.\<close>

definition matched_numbers :: "string list \<Rightarrow> nat set" where
  "matched_numbers imgs = {num. \<exists>img \<in> set imgs. matched_number img = Some num}"

text \<open>
  An occurrence of the pattern inside a name, stated on the text alone: \<open>pre\<close> is what
  precedes it and \<open>ds\<close> the digits.
\<close>

definition occurs_at :: "string \<Rightarrow> string \<Rightarrow> string \<Rightarrow> bool" where
  "occurs_at name pre ds =
     (\<exists>w post. name = pre @ ''image_'' @ ds @ ''.'' @ w # post
        \<and> ds \<noteq> [] \<and> list_all is_digit ds \<and> is_word w)"

section \<open>One download, with retries\<close>

definition REQUEST_TIMEOUT :: int where
  "REQUEST_TIMEOUT = 30"

definition MAX_RETRIES :: int where
  "MAX_RETRIES = 3"

definition RETRY_DELAY :: int where
  "RETRY_DELAY = 2"

text \<open>
  What \<open>requests.get\<close> can do on one call: raise \<open>Timeout\<close>, raise another
  \<open>RequestException\<close> (connection, DNS, ...) with its message, or return a response.
\<close>

record response =
  status_code :: nat
  reason :: string
  resp_url :: string
  content :: bytes
  content_type_header :: "string option"

datatype transport = Timeout | ConnectionError string | Response response

datatype exn =
    HTTPError nat string
  | RequestException string
  | ValueError string
  | IndexError

fun str_exn :: "exn \<Rightarrow> string" where
  "str_exn (HTTPError code msg) = msg"
| "str_exn (RequestException msg) = msg"
| "str_exn (ValueError msg) = msg"
| "str_exn IndexError = ''list index out of range''"

text \<open>\<open>Response.raise_for_status\<close> of the requests library: an error for 4xx and 5xx only.\<close>

definition raise_for_status :: "response \<Rightarrow> exn option" where
  "raise_for_status r =
     (if 400 \<le> status_code r \<and> status_code r < 500
      then Some (HTTPError (status_code r)
             (str_nat (status_code r) @ '' Client Error: '' @ reason r @ '' for url: '' @ resp_url r))
      else if 500 \<le> status_code r \<and> status_code r < 600
      then Some (HTTPError (status_code r)
             (str_nat (status_code r) @ '' Server Error: '' @ reason r @ '' for url: '' @ resp_url r))
      else None)"

text \<open>
  What the run does that an observer can see, in order: each \<open>requests.get\<close>, each
  \<open>time.sleep\<close>, each file written, and the values sent to the labels and the progress
  bar (the numbers, before they are formatted into the label text).
\<close>

datatype event =
    Get string int
  | Sleep int
  | Write string bytes
  | Status string
  | MeanSpeed rat
  | Progress nat nat
  | Remaining rat

text \<open>The body of the \<open>try\<close> of one attempt and its three \<open>except\<close> clauses.\<close>

datatype attempt_result = Returned response | Raised exn | Failed string

definition attempt_once :: "int \<Rightarrow> transport \<Rightarrow> attempt_result" where
  "attempt_once timeout t =
     (case t of
        Timeout \<Rightarrow> Failed (''Timeout after '' @ str_int timeout @ ''s'')
      | ConnectionError msg \<Rightarrow> Failed msg
      | Response r \<Rightarrow>
          (case raise_for_status r of
             None \<Rightarrow> Returned r
           | Some e \<Rightarrow>
               if status_code r < 500 then Raised e
               else Failed (''HTTP '' @ str_nat (status_code r))))"

definition str_last :: "string option \<Rightarrow> string" where
  "str_last last_exception = (case last_exception of None \<Rightarrow> ''None'' | Some m \<Rightarrow> m)"

text \<open>
  The loop \<open>for attempt in range(max_retries)\<close>; \<open>get k\<close> is what the \<open>k\<close>-th call of
  \<open>requests.get\<close> for this URL does. The result comes with the calls and sleeps made.
\<close>

fun retry_loop ::
  "(nat \<Rightarrow> transport) \<Rightarrow> string \<Rightarrow> int \<Rightarrow> int \<Rightarrow> string option \<Rightarrow> nat list
     \<Rightarrow> (exn + response) \<times> event list" where
  "retry_loop get url timeout max_retries last_exception [] =
     (Inl (RequestException
        (''Failed after '' @ str_int max_retries @ '' attempts: '' @ str_last last_exception)), [])"
| "retry_loop get url timeout max_retries last_exception (attempt # rest) =
     (case attempt_once timeout (get attempt) of
        Returned r \<Rightarrow> (Inr r, [Get url timeout])
      | Raised e \<Rightarrow> (Inl e, [Get url timeout])
      | Failed msg \<Rightarrow>
          (let (res, evs) = retry_loop get url timeout max_retries (Some msg) rest
           in (res,
               Get url timeout #
               (if int attempt < max_retries - 1
                then [Sleep (RETRY_DELAY * (int attempt + 1))] else []) @ evs)))"

definition download_with_retry ::
  "(nat \<Rightarrow> transport) \<Rightarrow> string \<Rightarrow> int \<Rightarrow> int \<Rightarrow> (exn + response) \<times> event list" where
  "download_with_retry get url timeout max_retries =
     retry_loop get url timeout max_retries None [0..<nat max_retries]"

definition attempts :: "event list \<Rightarrow> nat" where
  "attempts evs = length (filter (\<lambda>e. case e of Get _ _ \<Rightarrow> True | _ \<Rightarrow> False) evs)"

definition sleeps :: "event list \<Rightarrow> int list" where
  "sleeps evs = concat (map (\<lambda>e. case e of Sleep d \<Rightarrow> [d] | _ \<Rightarrow> []) evs)"

section \<open>The batch\<close>

text \<open>
  The surroundings of one run. \<open>net idx k\<close> is what the \<open>k\<close>-th call of
  \<open>requests.get\<close> does for the item at position \<open>idx\<close> of \<open>valid_urls\<close>;
  \<open>flag k\<close> is the value of the global \<open>download_cancelled\<close> when it is read with
  \<open>k\<close> items processed (the worker only reads it; \<open>cancel_download\<close> sets it from the
  interface thread); the clock fields are the readings of \<open>time.time()\<close>:
  \<open>start_time\<close>, and for each item \<open>download_start_time\<close>, the reading after
  \<open>download_with_retry\<close> has returned, and \<open>current_time\<close>. Seconds are exact
  rationals here, where Python has binary floating point.
\<close>

record env =
  net :: "nat \<Rightarrow> nat \<Rightarrow> transport"
  flag :: "nat \<Rightarrow> bool"
  clock_start :: rat
  clock_begin :: "nat \<Rightarrow> rat"
  clock_fetched :: "nat \<Rightarrow> rat"
  clock_done :: "nat \<Rightarrow> rat"

text \<open>
  The local variables of \<open>download\<close>, the destination directory (file name to
  contents) and the observable events so far.
\<close>

record state =
  total_size :: nat
  total_time :: rat
  successful :: nat
  failed :: nat
  failed_urls :: "(string \<times> string) list"
  files :: "string \<Rightarrow> bytes option"
  trace :: "event list"

definition init_state :: "(string \<Rightarrow> bytes option) \<Rightarrow> state" where
  "init_state dir =
     \<lparr>total_size = 0, total_time = 0, successful = 0, failed = 0, failed_urls = [],
      files = dir, trace = []\<rparr>"

definition mean_speed :: "nat \<Rightarrow> rat \<Rightarrow> rat" where
  "mean_speed size_total time_total =
     (if time_total > 0 then (of_nat size_total * 8) / (time_total * 1000000) else 0)"

definition remaining_time :: "rat \<Rightarrow> nat \<Rightarrow> nat \<Rightarrow> rat" where
  "remaining_time elapsed_total_time progress n =
     (let avg_time_per_image = elapsed_total_time / of_nat progress;
          remaining = int n - int progress
      in avg_time_per_image * of_int remaining)"

text \<open>\<open>os.path.basename\<close>: what follows the last slash.\<close>

definition basename :: "string \<Rightarrow> string" where
  "basename p = rev (takeWhile (\<lambda>c. c \<noteq> CHR ''/'') (rev p))"

text \<open>The clause \<open>except Exception as e\<close> of the loop body.\<close>

definition except_handler :: "string \<Rightarrow> exn \<Rightarrow> state \<Rightarrow> state" where
  "except_handler url e st =
     st\<lparr>failed := failed st + 1,
        failed_urls := failed_urls st @ [(url, str_exn e)],
        trace := trace st @ [Status (''Failed: '' @ take 30 (basename url) @ ''...'')]\<rparr>"

definition image_name :: "nat \<Rightarrow> string \<Rightarrow> string" where
  "image_name img_num extension = ''image_'' @ str_nat img_num @ extension"

text \<open>
  The \<open>try\<close> block for one item: the download, the size check, the running totals,
  the file. Writing the file is taken to succeed (the caller has checked that the
  directory exists and has free space).
\<close>

definition try_item :: "env \<Rightarrow> nat \<Rightarrow> nat \<Rightarrow> string \<Rightarrow> state \<Rightarrow> state" where
  "try_item e start idx url st =
     (let img_num = start + idx;
          (res, evs) = download_with_retry (net e idx) url REQUEST_TIMEOUT MAX_RETRIES;
          st1 = st\<lparr>trace := trace st @ evs\<rparr>
      in case res of
           Inl ex \<Rightarrow> except_handler url ex st1
         | Inr response \<Rightarrow>
             (let img_data = content response;
                  elapsed_time = clock_fetched e idx - clock_begin e idx
              in if length img_data < 100
                 then except_handler url
                        (ValueError ''Downloaded content too small, likely an error page'') st1
                 else (let size_total = total_size st1 + length img_data;
                           time_total = total_time st1 + elapsed_time;
                           content_type =
                             (case content_type_header response of Some v \<Rightarrow> v | None \<Rightarrow> []);
                           extension = get_file_extension content_type url;
                           img_name = image_name img_num extension
                       in st1\<lparr>total_size := size_total,
                              total_time := time_total,
                              successful := successful st1 + 1,
                              files := (files st1)(img_name \<mapsto> img_data),
                              trace := trace st1 @
                                [MeanSpeed (mean_speed size_total time_total),
                                 Write img_name img_data]\<rparr>)))"

text \<open>One pass of the loop body after the cancellation check: the item, then the progress.\<close>

definition process_item :: "env \<Rightarrow> nat \<Rightarrow> nat \<Rightarrow> nat \<Rightarrow> string \<Rightarrow> state \<Rightarrow> state" where
  "process_item e start n idx url st =
     (let st2 = try_item e start idx url st;
          progress = idx + 1;
          elapsed_total_time = clock_done e idx - clock_start e
      in st2\<lparr>trace := trace st2 @ Progress progress n #
                (if progress > 0
                 then [Remaining (remaining_time elapsed_total_time progress n)] else [])\<rparr>)"

text \<open>
  The loop \<open>for idx, (original_idx, url) in enumerate(valid_urls)\<close>. It returns the
  number of items processed when it stopped, with the state.
\<close>

fun download_loop ::
  "env \<Rightarrow> nat \<Rightarrow> nat \<Rightarrow> nat \<Rightarrow> (nat \<times> string) list \<Rightarrow> state \<Rightarrow> nat \<times> state" where
  "download_loop e start n idx [] st = (idx, st)"
| "download_loop e start n idx ((original_idx, url) # rest) st =
     (if flag e idx
      then (idx, st\<lparr>trace := trace st @
              [Status (''Cancelled. Downloaded '' @ str_nat (successful st) @ '' images.'')]\<rparr>)
      else download_loop e start n (Suc idx) rest (process_item e start n idx url st))"

text \<open>
  The summary shown at the end: the values put into one of the two message formats.
  \<open>failed_urls[0]\<close> raises \<open>IndexError\<close> on an empty list.
\<close>

datatype summary =
    Cancelled_Summary nat nat int
  | Complete_Summary nat nat "(string \<times> string) option"

definition summarize :: "env \<Rightarrow> nat \<Rightarrow> nat \<Rightarrow> state \<Rightarrow> exn + summary" where
  "summarize e n processed st =
     (if flag e processed
      then Inr (Cancelled_Summary (successful st) (failed st)
                  (int n - int (successful st) - int (failed st)))
      else if failed st > 0
      then (case failed_urls st of
              [] \<Rightarrow> Inl IndexError
            | (u, m) # _ \<Rightarrow>
                Inr (Complete_Summary (successful st) (failed st) (Some (take 50 u, m))))
      else Inr (Complete_Summary (successful st) (failed st) None))"

definition download ::
  "env \<Rightarrow> nat \<Rightarrow> (nat \<times> string) list \<Rightarrow> (string \<Rightarrow> bytes option)
     \<Rightarrow> (exn + summary) \<times> nat \<times> state" where
  "download e start valid_urls dir =
     (let (processed, st) =
            download_loop e start (length valid_urls) 0 valid_urls (init_state dir)
      in (summarize e (length valid_urls) processed st, processed, st))"

text \<open>The loop when nothing cancels it, for comparison.\<close>

fun process_all ::
  "env \<Rightarrow> nat \<Rightarrow> nat \<Rightarrow> nat \<Rightarrow> (nat \<times> string) list \<Rightarrow> state \<Rightarrow> state" where
  "process_all e start n idx [] st = st"
| "process_all e start n idx ((original_idx, url) # rest) st =
     process_all e start n (Suc idx) rest (process_item e start n idx url st)"

text \<open>What one item comes to: the exception that ends it, or the response kept.\<close>

definition item_outcome :: "env \<Rightarrow> nat \<Rightarrow> string \<Rightarrow> exn + response" where
  "item_outcome e idx url =
     (case fst (download_with_retry (net e idx) url REQUEST_TIMEOUT MAX_RETRIES) of
        Inl ex \<Rightarrow> Inl ex
      | Inr response \<Rightarrow>
          if length (content response) < 100
          then Inl (ValueError ''Downloaded content too small, likely an error page'')
          else Inr response)"

definition writes :: "event list \<Rightarrow> (string \<times> bytes) list" where
  "writes evs = concat (map (\<lambda>ev. case ev of Write name d \<Rightarrow> [(name, d)] | _ \<Rightarrow> []) evs)"

definition gets :: "event list \<Rightarrow> string list" where
  "gets evs = concat (map (\<lambda>ev. case ev of Get u t \<Rightarrow> [u] | _ \<Rightarrow> []) evs)"

definition progress_events :: "event list \<Rightarrow> nat list" where
  "progress_events evs = concat (map (\<lambda>ev. case ev of Progress p n \<Rightarrow> [p] | _ \<Rightarrow> []) evs)"

section \<open>Sample surroundings, for concrete runs\<close>

text \<open>
  A response with a given status and payload length; a network that behaves as listed
  on its first calls and times out afterwards; surroundings with a given network and
  cancellation flag, where every item takes one second, half of it in the download.
\<close>

definition sample_response :: "nat \<Rightarrow> nat \<Rightarrow> response" where
  "sample_response code len =
     \<lparr>status_code = code, reason = ''R'', resp_url = ''http://example.com/a'',
      content = replicate len CHR ''x'', content_type_header = Some ''image/png''\<rparr>"

definition script :: "transport list \<Rightarrow> nat \<Rightarrow> transport" where
  "script ts k = (if k < length ts then ts ! k else Timeout)"

definition sample_env :: "(nat \<Rightarrow> nat \<Rightarrow> transport) \<Rightarrow> (nat \<Rightarrow> bool) \<Rightarrow> env" where
  "sample_env n f =
     \<lparr>net = n, flag = f, clock_start = 0, clock_begin = (\<lambda>i. of_nat i),
      clock_fetched = (\<lambda>i. of_nat i + 1 / 2), clock_done = (\<lambda>i. of_nat i + 1)\<rparr>"

text \<open>
  Four items: the first is answered at once with 200 bytes, the second with a 404, the
  third times out once and then gets 50 bytes, the fourth times out twice and then
  gets 200 bytes.
\<close>

definition sample_urls :: "(nat \<times> string) list" where
  "sample_urls =
     [(0, ''http://example.com/a''), (2, ''http://example.com/b.gif''),
      (3, ''http://example.com/c''), (5, ''http://example.com/d'')]"

definition sample_net :: "nat \<Rightarrow> nat \<Rightarrow> transport" where
  "sample_net idx =
     (if idx = 0 then script [Response (sample_response 200 200)]
      else if idx = 1 then script [Response (sample_response 404 200)]
      else if idx = 2 then script [Timeout, Response (sample_response 200 50)]
      else script [Timeout, Timeout, Response (sample_response 200 200)])"

section \<open>What one item contributes\<close>

text \<open>
  Observations on one item, put together from the functions above: the calls and sleeps
  of its download, whether it ends in success, the record of its failure, the file it
  writes.
\<close>

definition item_events :: "env \<Rightarrow> nat \<Rightarrow> string \<Rightarrow> event list" where
  "item_events e idx url = snd (download_with_retry (net e idx) url REQUEST_TIMEOUT MAX_RETRIES)"

definition succeeds :: "env \<Rightarrow> nat \<Rightarrow> string \<Rightarrow> bool" where
  "succeeds e idx url = (case item_outcome e idx url of Inr r \<Rightarrow> True | Inl ex \<Rightarrow> False)"

definition item_failures :: "env \<Rightarrow> nat \<Rightarrow> string \<Rightarrow> (string \<times> string) list" where
  "item_failures e idx url =
     (case item_outcome e idx url of Inl ex \<Rightarrow> [(url, str_exn ex)] | Inr r \<Rightarrow> [])"

definition header_value :: "response \<Rightarrow> string" where
  "header_value r = (case content_type_header r of Some v \<Rightarrow> v | None \<Rightarrow> [])"

definition item_writes :: "env \<Rightarrow> nat \<Rightarrow> nat \<Rightarrow> string \<Rightarrow> (string \<times> bytes) list" where
  "item_writes e start idx url =
     (case item_outcome e idx url of
        Inr r \<Rightarrow> [(image_name (start + idx) (get_file_extension (header_value r) url), content r)]
      | Inl ex \<Rightarrow> [])"

text \<open>The positions and URLs of a list of items that starts at position \<open>idx\<close>.\<close>

definition positions :: "nat \<Rightarrow> (nat \<times> string) list \<Rightarrow> (nat \<times> string) list" where
  "positions idx items = List.enumerate idx (map snd items)"

section \<open>Properties of the extension resolver\<close>











section \<open>Properties of one download with retries\<close>

lemma upt_3: "[0..<nat 3] = [0, Suc 0, Suc (Suc 0)]"
  by (simp add: numeral_3_eq_3 upt_rec)

lemma attempt_once_Timeout: "attempt_once t Timeout = Failed (''Timeout after '' @ str_int t @ ''s'')"
  by (simp add: attempt_once_def)

lemma attempt_once_ok:
  "raise_for_status r = None \<Longrightarrow> attempt_once t (Response r) = Returned r"
  by (simp add: attempt_once_def)

lemma raise_for_status_None: "raise_for_status r = None \<longleftrightarrow> \<not> (400 \<le> status_code r \<and> status_code r < 600)"
  by (auto simp: raise_for_status_def)

lemma attempt_once_client:
  "400 \<le> status_code r \<Longrightarrow> status_code r < 500 \<Longrightarrow>
   attempt_once t (Response r) = Raised (HTTPError (status_code r)
     (str_nat (status_code r) @ '' Client Error: '' @ reason r @ '' for url: '' @ resp_url r))"
  by (simp add: attempt_once_def raise_for_status_def)

lemma attempt_once_server:
  "500 \<le> status_code r \<Longrightarrow> status_code r < 600 \<Longrightarrow>
   attempt_once t (Response r) = Failed (''HTTP '' @ str_nat (status_code r))"
  by (simp add: attempt_once_def raise_for_status_def)

lemma two_timeouts_then_ok:
  assumes "get 0 = Timeout" "get 1 = Timeout" "get 2 = Response r" "status_code r = 200"
  shows "download_with_retry get url timeout 3 =
           (Inr r, [Get url timeout, Sleep 2, Get url timeout, Sleep 4, Get url timeout])"
proof -
  have ok: "attempt_once timeout (Response r) = Returned r"
    using assms(4) by (simp add: attempt_once_ok raise_for_status_None)
  have g: "get (Suc 0) = Timeout" "get (Suc (Suc 0)) = Response r"
    using assms by (simp_all add: numeral_2_eq_2)
  show ?thesis
    unfolding download_with_retry_def upt_3
    by (simp add: assms(1) g attempt_once_Timeout ok RETRY_DELAY_def)
qed

lemma single_404:
  assumes "get 0 = Response r" "status_code r = 404"
  shows "download_with_retry get url timeout 3 =
           (Inl (HTTPError 404 (str_nat 404 @ '' Client Error: '' @ reason r @ '' for url: '' @ resp_url r)),
            [Get url timeout])"
proof -
  have "attempt_once timeout (Response r) = Raised (HTTPError 404
     (str_nat 404 @ '' Client Error: '' @ reason r @ '' for url: '' @ resp_url r))"
    using attempt_once_client [of r timeout] assms(2) by simp
  then show ?thesis
    unfolding download_with_retry_def upt_3
    by (simp add: assms(1))
qed

lemma persistent_500:
  assumes "\<And>k. k < 3 \<Longrightarrow> \<exists>r. get k = Response r \<and> status_code r = 500"
  shows "download_with_retry get url timeout 3 =
           (Inl (RequestException (''Failed after '' @ str_int 3 @ '' attempts: '' @ ''HTTP '' @ str_nat 500)),
            [Get url timeout, Sleep 2, Get url timeout, Sleep 4, Get url timeout])"
proof -
  have a: "attempt_once timeout (get k) = Failed (''HTTP '' @ str_nat 500)" if "k < 3" for k
  proof -
    from assms [OF that] obtain r where r: "get k = Response r" "status_code r = 500"
      by blast
    with attempt_once_server [of r timeout] show ?thesis
      by simp
  qed
  have "attempt_once timeout (get 0) = Failed (''HTTP '' @ str_nat 500)"
    "attempt_once timeout (get (Suc 0)) = Failed (''HTTP '' @ str_nat 500)"
    "attempt_once timeout (get (Suc (Suc 0))) = Failed (''HTTP '' @ str_nat 500)"
    by (simp_all add: a)
  then show ?thesis
    unfolding download_with_retry_def upt_3
    by (simp add: RETRY_DELAY_def str_last_def)
qed

lemma msg_500: "''Failed after '' @ str_int 3 @ '' attempts: '' @ ''HTTP '' @ str_nat 500 = ''Failed after 3 attempts: HTTP 500''"
  by code_simp

lemma attempts_5: "attempts [Get u t, Sleep a, Get u t, Sleep b, Get u t] = 3"
  by (simp add: attempts_def)

lemma attempts_Cons_Get [simp]: "attempts (Get u t # evs) = Suc (attempts evs)"
  by (simp add: attempts_def)

lemma attempts_Cons_Sleep [simp]: "attempts (Sleep d # evs) = attempts evs"
  by (simp add: attempts_def)

lemma attempts_Nil [simp]: "attempts [] = 0"
  by (simp add: attempts_def)

lemma attempts_append [simp]: "attempts (xs @ ys) = attempts xs + attempts ys"
  by (simp add: attempts_def)

lemma sleeps_simps [simp]:
  "sleeps [] = []"
  "sleeps (Get u t # evs) = sleeps evs"
  "sleeps (Sleep d # evs) = d # sleeps evs"
  "sleeps (xs @ ys) = sleeps xs @ sleeps ys"
  by (simp_all add: sleeps_def)

lemma retry_loop_returns:
  "retry_loop get url t m last_exception as = (Inr r, evs) \<Longrightarrow>
   \<exists>pre k post. as = pre @ k # post
     \<and> (\<forall>j \<in> set pre. \<exists>msg. attempt_once t (get j) = Failed msg)
     \<and> attempt_once t (get k) = Returned r
     \<and> attempts evs = length pre + 1
     \<and> sleeps evs = map (\<lambda>j. RETRY_DELAY * (int j + 1)) (filter (\<lambda>j. int j < m - 1) pre)
     \<and> evs \<noteq> [] \<and> last evs = Get url t"
proof (induction as arbitrary: last_exception evs)
  case Nil
  then show ?case by simp
next
  case (Cons a as)
  show ?case
  proof (cases "attempt_once t (get a)")
    case (Returned r')
    with Cons.prems have "r' = r" "evs = [Get url t]"
      by simp_all
    with Returned have "a # as = [] @ a # as \<and> (\<forall>j \<in> set []. \<exists>msg. attempt_once t (get j) = Failed msg)
      \<and> attempt_once t (get a) = Returned r \<and> attempts evs = length ([]::nat list) + 1
      \<and> sleeps evs = map (\<lambda>j. RETRY_DELAY * (int j + 1)) (filter (\<lambda>j. int j < m - 1) [])
      \<and> evs \<noteq> [] \<and> last evs = Get url t"
      by simp
    then show ?thesis by blast
  next
    case (Raised ex)
    with Cons.prems show ?thesis by simp
  next
    case (Failed msg)
    obtain res evs' where rl: "retry_loop get url t m (Some msg) as = (res, evs')"
      by (cases "retry_loop get url t m (Some msg) as")
    with Cons.prems Failed have res: "res = Inr r"
      and evs: "evs = Get url t # (if int a < m - 1 then [Sleep (RETRY_DELAY * (int a + 1))] else []) @ evs'"
      by simp_all
    from Cons.IH [OF rl [unfolded res]] obtain pre k post where
      ih: "as = pre @ k # post"
        "\<forall>j \<in> set pre. \<exists>msg. attempt_once t (get j) = Failed msg"
        "attempt_once t (get k) = Returned r"
        "attempts evs' = length pre + 1"
        "sleeps evs' = map (\<lambda>j. RETRY_DELAY * (int j + 1)) (filter (\<lambda>j. int j < m - 1) pre)"
        "evs' \<noteq> []" "last evs' = Get url t"
      by blast
    have "a # as = (a # pre) @ k # post
      \<and> (\<forall>j \<in> set (a # pre). \<exists>msg. attempt_once t (get j) = Failed msg)
      \<and> attempt_once t (get k) = Returned r \<and> attempts evs = length (a # pre) + 1
      \<and> sleeps evs = map (\<lambda>j. RETRY_DELAY * (int j + 1)) (filter (\<lambda>j. int j < m - 1) (a # pre))
      \<and> evs \<noteq> [] \<and> last evs = Get url t"
      using ih Failed evs by simp
    then show ?thesis by blast
  qed
qed

lemma upt_split:
  "[i..<n] = pre @ k # post \<Longrightarrow> pre = [i..<k] \<and> k < n \<and> i \<le> k"
proof (induction pre arbitrary: i)
  case Nil
  then show ?case by (simp add: upt_eq_Cons_conv)
next
  case (Cons p ps)
  from Cons.prems have "i < n" "p = i" "[Suc i..<n] = ps @ k # post"
    by (auto simp: upt_eq_Cons_conv)
  with Cons.IH [of "Suc i"] show ?case
    by (simp add: upt_rec [of i k])
qed

lemma attempt_once_Returned:
  "attempt_once t x = Returned r \<longleftrightarrow> x = Response r \<and> \<not> (400 \<le> status_code r \<and> status_code r < 600)"
  by (cases x) (auto simp: attempt_once_def raise_for_status_def split: if_splits)

lemma download_with_retry_returns:
  assumes "download_with_retry get url t m = (Inr r, evs)"
  shows "\<exists>k. int k < m \<and> get k = Response r
     \<and> \<not> (400 \<le> status_code r \<and> status_code r < 600)
     \<and> (\<forall>j < k. \<exists>msg. attempt_once t (get j) = Failed msg)
     \<and> attempts evs = k + 1
     \<and> sleeps evs = map (\<lambda>j. RETRY_DELAY * (int j + 1)) [0..<k]
     \<and> evs \<noteq> [] \<and> last evs = Get url t"
proof -
  from retry_loop_returns [OF assms [unfolded download_with_retry_def]]
  obtain pre k post where
    ih: "[0..<nat m] = pre @ k # post"
        "\<forall>j \<in> set pre. \<exists>msg. attempt_once t (get j) = Failed msg"
        "attempt_once t (get k) = Returned r"
        "attempts evs = length pre + 1"
        "sleeps evs = map (\<lambda>j. RETRY_DELAY * (int j + 1)) (filter (\<lambda>j. int j < m - 1) pre)"
        "evs \<noteq> []" "last evs = Get url t"
    by blast
  from upt_split [OF ih(1)] have pre: "pre = [0..<k]" and k: "k < nat m"
    by simp_all
  have "filter (\<lambda>j. int j < m - 1) pre = pre"
    unfolding pre using k by (auto simp: filter_id_conv)
  with ih pre k show ?thesis
    by (auto simp: attempt_once_Returned)
qed

lemma str_nat_404: "str_nat 404 = ''404''"
  by code_simp

lemma item_outcome_Inr:
  "download_with_retry (net e idx) url REQUEST_TIMEOUT MAX_RETRIES = (Inr r, evs) \<Longrightarrow>
   100 \<le> length (content r) \<Longrightarrow> item_outcome e idx url = Inr r"
  by (simp add: item_outcome_def)

lemma item_outcome_small:
  "download_with_retry (net e idx) url REQUEST_TIMEOUT MAX_RETRIES = (Inr r, evs) \<Longrightarrow>
   length (content r) < 100 \<Longrightarrow>
   item_outcome e idx url = Inl (ValueError ''Downloaded content too small, likely an error page'')"
  by (simp add: item_outcome_def)

text \<open>
  C1. With three attempts allowed, for every URL and timeout: two timeouts followed by a
  200 response of at least 100 bytes make \<open>download_with_retry\<close> return that response
  after exactly three calls of \<open>requests.get\<close> (and the item passes the size check);
  a 404 on the first call is raised at once as the \<open>HTTPError\<close> of the client error,
  after exactly one call and no sleep; a 500 on every call ends, after exactly three
  calls, in the \<open>RequestException\<close> \<open>Failed after 3 attempts\<close>.
\<close>

theorem download_with_retry_outcomes:
  "(geta 0 = Timeout \<and> geta 1 = Timeout \<and> geta 2 = Response r \<and> status_code r = 200
      \<and> 100 \<le> length (content r) \<longrightarrow>
      download_with_retry geta url timeout 3 =
        (Inr r, [Get url timeout, Sleep 2, Get url timeout, Sleep 4, Get url timeout])
      \<and> attempts (snd (download_with_retry geta url timeout 3)) = 3
      \<and> (net e idx = geta \<longrightarrow> item_outcome e idx url = Inr r))
   \<and> (getb 0 = Response r4 \<and> status_code r4 = 404 \<longrightarrow>
      download_with_retry getb url timeout 3 =
        (Inl (HTTPError 404 (''404 Client Error: '' @ reason r4 @ '' for url: '' @ resp_url r4)),
         [Get url timeout])
      \<and> attempts (snd (download_with_retry getb url timeout 3)) = 1
      \<and> sleeps (snd (download_with_retry getb url timeout 3)) = [])
   \<and> ((\<forall>k<3. \<exists>r5. getc k = Response r5 \<and> status_code r5 = 500) \<longrightarrow>
      download_with_retry getc url timeout 3 =
        (Inl (RequestException ''Failed after 3 attempts: HTTP 500''),
         [Get url timeout, Sleep 2, Get url timeout, Sleep 4, Get url timeout])
      \<and> attempts (snd (download_with_retry getc url timeout 3)) = 3)"
proof (intro conjI impI)
  assume h: "geta 0 = Timeout \<and> geta 1 = Timeout \<and> geta 2 = Response r \<and> status_code r = 200
      \<and> 100 \<le> length (content r)"
  then show a: "download_with_retry geta url timeout 3 =
        (Inr r, [Get url timeout, Sleep 2, Get url timeout, Sleep 4, Get url timeout])"
    by (simp add: two_timeouts_then_ok)
  then show "attempts (snd (download_with_retry geta url timeout 3)) = 3"
    by simp
  assume "net e idx = geta"
  with h show "item_outcome e idx url = Inr r"
    using item_outcome_Inr [of e idx url r, unfolded MAX_RETRIES_def]
      two_timeouts_then_ok [of geta r url REQUEST_TIMEOUT]
    by simp
next
  assume h: "getb 0 = Response r4 \<and> status_code r4 = 404"
  then show b: "download_with_retry getb url timeout 3 =
        (Inl (HTTPError 404 (''404 Client Error: '' @ reason r4 @ '' for url: '' @ resp_url r4)),
         [Get url timeout])"
    using single_404 [of getb r4 url timeout] unfolding str_nat_404 by simp
  then show "attempts (snd (download_with_retry getb url timeout 3)) = 1"
    "sleeps (snd (download_with_retry getb url timeout 3)) = []"
    by simp_all
next
  assume h: "\<forall>k<3. \<exists>r5. getc k = Response r5 \<and> status_code r5 = 500"
  then show c: "download_with_retry getc url timeout 3 =
        (Inl (RequestException ''Failed after 3 attempts: HTTP 500''),
         [Get url timeout, Sleep 2, Get url timeout, Sleep 4, Get url timeout])"
    using persistent_500 [of getc url timeout] unfolding msg_500 by blast
  then show "attempts (snd (download_with_retry getc url timeout 3)) = 3"
    by simp
qed

theorem download_with_retry_outcomes_witness:
  "download_with_retry (script [Timeout, Timeout, Response (sample_response 200 100)])
      ''http://example.com/a'' 30 3 =
     (Inr (sample_response 200 100),
      [Get ''http://example.com/a'' 30, Sleep 2, Get ''http://example.com/a'' 30, Sleep 4,
       Get ''http://example.com/a'' 30])
   \<and> item_outcome
        (sample_env (\<lambda>i. script [Timeout, Timeout, Response (sample_response 200 100)]) (\<lambda>k. False))
        0 ''http://example.com/a'' = Inr (sample_response 200 100)
   \<and> download_with_retry (script [Response (sample_response 404 0)]) ''http://example.com/a'' 30 3 =
     (Inl (HTTPError 404 (''404 Client Error: '' @ reason (sample_response 404 0) @ '' for url: ''
             @ resp_url (sample_response 404 0))),
      [Get ''http://example.com/a'' 30])
   \<and> download_with_retry (\<lambda>k. Response (sample_response 500 0)) ''http://example.com/a'' 30 3 =
     (Inl (RequestException ''Failed after 3 attempts: HTTP 500''),
      [Get ''http://example.com/a'' 30, Sleep 2, Get ''http://example.com/a'' 30, Sleep 4,
       Get ''http://example.com/a'' 30])"
proof -
  let ?ga = "script [Timeout, Timeout, Response (sample_response 200 100)]"
  let ?gb = "script [Response (sample_response 404 0)]"
  let ?gc = "\<lambda>k::nat. Response (sample_response 500 0)"
  let ?e = "sample_env (\<lambda>i. ?ga) (\<lambda>k. False)"
  note t = download_with_retry_outcomes [where geta = ?ga and r = "sample_response 200 100"
      and url = "''http://example.com/a''" and timeout = 30 and e = ?e and idx = 0
      and getb = ?gb and ?r4.0 = "sample_response 404 0" and getc = ?gc]
  have ha: "?ga 0 = Timeout \<and> ?ga 1 = Timeout \<and> ?ga 2 = Response (sample_response 200 100)
      \<and> status_code (sample_response 200 100) = 200
      \<and> 100 \<le> length (content (sample_response 200 100))"
    by (simp add: script_def sample_response_def)
  have hb: "?gb 0 = Response (sample_response 404 0) \<and> status_code (sample_response 404 0) = 404"
    by (simp add: script_def sample_response_def)
  have hc: "\<forall>k<3. \<exists>r5. ?gc k = Response r5 \<and> status_code r5 = 500"
    by (simp add: sample_response_def)
  have he: "net ?e 0 = ?ga"
    by (simp add: sample_env_def)
  from t ha he hb hc show ?thesis
    by blast
qed

lemma first_attempt_returns:
  assumes "get 0 = Response r" "\<not> (400 \<le> status_code r \<and> status_code r < 600)" "0 < m"
  shows "download_with_retry get url t m = (Inr r, [Get url t])"
proof -
  from assms(3) have "[0..<nat m] = 0 # [Suc 0..<nat m]"
    by (simp add: upt_rec)
  moreover have "attempt_once t (get 0) = Returned r"
    using assms(1,2) by (simp add: attempt_once_Returned)
  ultimately show ?thesis
    by (simp add: download_with_retry_def)
qed

lemma try_item_small:
  assumes "download_with_retry (net e idx) url REQUEST_TIMEOUT MAX_RETRIES = (Inr r, evs)"
    and "length (content r) < 100"
  shows "try_item e start idx url st =
           except_handler url (ValueError ''Downloaded content too small, likely an error page'')
             (st\<lparr>trace := trace st @ evs\<rparr>)"
  using assms by (simp add: try_item_def Let_def)

text \<open>
  C7 (amended). A response that \<open>download_with_retry\<close> returns with fewer than 100
  bytes ends the item as the \<open>ValueError\<close> of the size check; nothing is fetched and
  nothing sleeps after it: the item's events are those of the download up to the call
  that returned the response, and the handler's status line. The response came at some
  call \<open>k + 1\<close> (at most the third), every earlier call having failed in a retryable
  way, with the usual sleeps \<open>2, 4, ...\<close> between them. When the first call returns a
  2xx response that is too short, there is exactly one call and no sleep.
\<close>

theorem too_small_is_not_retried:
  "(download_with_retry (net e idx) url REQUEST_TIMEOUT MAX_RETRIES = (Inr r, evs)
      \<and> length (content r) < 100 \<longrightarrow>
      item_outcome e idx url =
        Inl (ValueError ''Downloaded content too small, likely an error page'')
      \<and> try_item e start idx url st =
          except_handler url (ValueError ''Downloaded content too small, likely an error page'')
            (st\<lparr>trace := trace st @ evs\<rparr>)
      \<and> (\<exists>k<3. net e idx k = Response r
            \<and> (\<forall>j<k. \<exists>msg. attempt_once REQUEST_TIMEOUT (net e idx j) = Failed msg)
            \<and> attempts evs = k + 1
            \<and> sleeps evs = map (\<lambda>j. 2 * (int j + 1)) [0..<k])
      \<and> last evs = Get url REQUEST_TIMEOUT)
   \<and> (net e idx 0 = Response r \<and> 200 \<le> status_code r \<and> status_code r < 300
        \<and> length (content r) < 100 \<longrightarrow>
      download_with_retry (net e idx) url REQUEST_TIMEOUT MAX_RETRIES =
        (Inr r, [Get url REQUEST_TIMEOUT])
      \<and> try_item e start idx url st =
          except_handler url (ValueError ''Downloaded content too small, likely an error page'')
            (st\<lparr>trace := trace st @ [Get url REQUEST_TIMEOUT]\<rparr>))"
proof (intro conjI impI)
  assume h: "download_with_retry (net e idx) url REQUEST_TIMEOUT MAX_RETRIES = (Inr r, evs)
      \<and> length (content r) < 100"
  then show "item_outcome e idx url =
        Inl (ValueError ''Downloaded content too small, likely an error page'')"
    by (simp add: item_outcome_small)
  from h show "try_item e start idx url st =
          except_handler url (ValueError ''Downloaded content too small, likely an error page'')
            (st\<lparr>trace := trace st @ evs\<rparr>)"
    by (simp add: try_item_small)
  from h download_with_retry_returns [of "net e idx" url REQUEST_TIMEOUT MAX_RETRIES r evs]
  obtain k where k: "int k < MAX_RETRIES" "net e idx k = Response r"
      "\<forall>j<k. \<exists>msg. attempt_once REQUEST_TIMEOUT (net e idx j) = Failed msg"
      "attempts evs = k + 1"
      "sleeps evs = map (\<lambda>j. RETRY_DELAY * (int j + 1)) [0..<k]"
      "last evs = Get url REQUEST_TIMEOUT"
    by blast
  from k(1) have "k < 3"
    by (simp add: MAX_RETRIES_def)
  with k show "\<exists>k<3. net e idx k = Response r
            \<and> (\<forall>j<k. \<exists>msg. attempt_once REQUEST_TIMEOUT (net e idx j) = Failed msg)
            \<and> attempts evs = k + 1
            \<and> sleeps evs = map (\<lambda>j. 2 * (int j + 1)) [0..<k]"
    unfolding RETRY_DELAY_def by blast
  from k show "last evs = Get url REQUEST_TIMEOUT"
    by simp
next
  assume h: "net e idx 0 = Response r \<and> 200 \<le> status_code r \<and> status_code r < 300
        \<and> length (content r) < 100"
  then show d: "download_with_retry (net e idx) url REQUEST_TIMEOUT MAX_RETRIES =
        (Inr r, [Get url REQUEST_TIMEOUT])"
    by (simp add: first_attempt_returns MAX_RETRIES_def)
  from h try_item_small [OF d, of start st]
  show "try_item e start idx url st =
          except_handler url (ValueError ''Downloaded content too small, likely an error page'')
            (st\<lparr>trace := trace st @ [Get url REQUEST_TIMEOUT]\<rparr>)"
    by simp
qed

theorem too_small_is_not_retried_witness:
  "try_item (sample_env (\<lambda>i. script [Response (sample_response 200 50)]) (\<lambda>k. False)) 1 0
      ''http://example.com/a'' (init_state Map.empty) =
     except_handler ''http://example.com/a''
       (ValueError ''Downloaded content too small, likely an error page'')
       ((init_state Map.empty)\<lparr>trace := trace (init_state Map.empty)
           @ [Get ''http://example.com/a'' REQUEST_TIMEOUT]\<rparr>)
   \<and> attempts [Get ''http://example.com/a'' REQUEST_TIMEOUT] = 1
   \<and> sleeps [Get ''http://example.com/a'' REQUEST_TIMEOUT] = []
   \<and> last [Get ''http://example.com/a'' REQUEST_TIMEOUT] = Get ''http://example.com/a'' REQUEST_TIMEOUT"
proof -
  let ?e = "sample_env (\<lambda>i. script [Response (sample_response 200 50)]) (\<lambda>k. False)"
  let ?u = "''http://example.com/a''"
  let ?r = "sample_response 200 50"
  let ?evs = "[Get ?u REQUEST_TIMEOUT]"
  note t = too_small_is_not_retried [where e = ?e and idx = 0 and url = ?u and r = ?r
      and evs = ?evs and start = 1 and st = "init_state Map.empty"]
  have h1: "download_with_retry (net ?e 0) ?u REQUEST_TIMEOUT MAX_RETRIES = (Inr ?r, ?evs)
      \<and> length (content ?r) < 100"
    by code_simp
  have h2: "net ?e 0 0 = Response ?r \<and> 200 \<le> status_code ?r \<and> status_code ?r < 300
        \<and> length (content ?r) < 100"
    by (simp add: sample_env_def script_def sample_response_def)
  from t h1 have c1: "try_item ?e 1 0 ?u (init_state Map.empty) =
     except_handler ?u (ValueError ''Downloaded content too small, likely an error page'')
       ((init_state Map.empty)\<lparr>trace := trace (init_state Map.empty) @ ?evs\<rparr>)"
    by blast
  from t h1 have c2: "last ?evs = Get ?u REQUEST_TIMEOUT"
    by blast
  from t h2 have c0: "download_with_retry (net ?e 0) ?u REQUEST_TIMEOUT MAX_RETRIES = (Inr ?r, ?evs)"
    by blast
  have c3: "attempts ?evs = 1" "sleeps ?evs = []"
    by simp_all
  from c1 c2 c3 show ?thesis
    by (intro conjI)
qed

text \<open>
  C7 as stated fails when retryable failures precede the short response: after one
  timeout and then a 200 response of 50 bytes the item is the too-small failure, with
  two calls and one sleep of 2 seconds.
\<close>

theorem too_small_after_timeout_counterexample:
  "item_outcome (sample_env (\<lambda>i. script [Timeout, Response (sample_response 200 50)]) (\<lambda>k. False))
      0 ''http://example.com/a''
     = Inl (ValueError ''Downloaded content too small, likely an error page'')
   \<and> attempts (snd (download_with_retry
        (net (sample_env (\<lambda>i. script [Timeout, Response (sample_response 200 50)]) (\<lambda>k. False)) 0)
        ''http://example.com/a'' REQUEST_TIMEOUT MAX_RETRIES)) = 2
   \<and> sleeps (snd (download_with_retry
        (net (sample_env (\<lambda>i. script [Timeout, Response (sample_response 200 50)]) (\<lambda>k. False)) 0)
        ''http://example.com/a'' REQUEST_TIMEOUT MAX_RETRIES)) = [2]"
  by code_simp

section \<open>Properties of the batch loop\<close>

lemma writes_simps [simp]:
  "writes [] = []"
  "writes (Write name d # evs) = (name, d) # writes evs"
  "writes (Get u t # evs) = writes evs"
  "writes (Sleep s # evs) = writes evs"
  "writes (Status m # evs) = writes evs"
  "writes (MeanSpeed v # evs) = writes evs"
  "writes (Progress p n # evs) = writes evs"
  "writes (Remaining x # evs) = writes evs"
  "writes (xs @ ys) = writes xs @ writes ys"
  by (simp_all add: writes_def)

lemma gets_simps [simp]:
  "gets [] = []"
  "gets (Write name d # evs) = gets evs"
  "gets (Get u t # evs) = u # gets evs"
  "gets (Sleep s # evs) = gets evs"
  "gets (Status m # evs) = gets evs"
  "gets (MeanSpeed v # evs) = gets evs"
  "gets (Progress p n # evs) = gets evs"
  "gets (Remaining x # evs) = gets evs"
  "gets (xs @ ys) = gets xs @ gets ys"
  by (simp_all add: gets_def)

lemma progress_events_simps [simp]:
  "progress_events [] = []"
  "progress_events (Write name d # evs) = progress_events evs"
  "progress_events (Get u t # evs) = progress_events evs"
  "progress_events (Sleep s # evs) = progress_events evs"
  "progress_events (Status m # evs) = progress_events evs"
  "progress_events (MeanSpeed v # evs) = progress_events evs"
  "progress_events (Progress p n # evs) = p # progress_events evs"
  "progress_events (Remaining x # evs) = progress_events evs"
  "progress_events (xs @ ys) = progress_events xs @ progress_events ys"
  by (simp_all add: progress_events_def)

lemma retry_loop_events:
  "writes (snd (retry_loop get url t m last_exception as)) = []
   \<and> progress_events (snd (retry_loop get url t m last_exception as)) = []
   \<and> set (gets (snd (retry_loop get url t m last_exception as))) \<subseteq> {url}
   \<and> attempts (snd (retry_loop get url t m last_exception as)) \<le> length as"
proof (induction as arbitrary: last_exception)
  case Nil
  then show ?case by simp
next
  case (Cons a as)
  show ?case
  proof (cases "attempt_once t (get a)")
    case (Failed msg)
    with Cons [of "Some msg"] show ?thesis
      by (auto simp: split_beta)
  qed simp_all
qed

lemma item_events_quiet:
  "writes (item_events e idx url) = []"
  "progress_events (item_events e idx url) = []"
  "set (gets (item_events e idx url)) \<subseteq> {url}"
  "attempts (item_events e idx url) \<le> 3"
  using retry_loop_events [of "net e idx" url REQUEST_TIMEOUT MAX_RETRIES None "[0..<nat MAX_RETRIES]"]
  by (simp_all add: item_events_def download_with_retry_def MAX_RETRIES_def)

lemma try_item_failure:
  assumes "item_outcome e idx url = Inl ex"
  shows "try_item e start idx url st =
           except_handler url ex (st\<lparr>trace := trace st @ item_events e idx url\<rparr>)"
  using assms
  by (cases "download_with_retry (net e idx) url REQUEST_TIMEOUT MAX_RETRIES")
     (auto simp: try_item_def item_outcome_def item_events_def Let_def
           split: sum.splits if_splits)

lemma try_item_success:
  assumes "item_outcome e idx url = Inr r"
  shows "try_item e start idx url st =
           st\<lparr>trace := trace st @ item_events e idx url @
                  [MeanSpeed (mean_speed (total_size st + length (content r))
                     (total_time st + (clock_fetched e idx - clock_begin e idx))),
                   Write (image_name (start + idx) (get_file_extension (header_value r) url))
                     (content r)],
              total_size := total_size st + length (content r),
              total_time := total_time st + (clock_fetched e idx - clock_begin e idx),
              successful := successful st + 1,
              files := (files st)(image_name (start + idx)
                         (get_file_extension (header_value r) url) \<mapsto> content r)\<rparr>"
    and "100 \<le> length (content r)"
  using assms
  by (cases "download_with_retry (net e idx) url REQUEST_TIMEOUT MAX_RETRIES";
      auto simp: try_item_def item_outcome_def item_events_def header_value_def Let_def
           split: sum.splits if_splits)+

lemma process_item_failure:
  assumes "item_outcome e idx url = Inl ex"
  shows "process_item e start n idx url st =
           st\<lparr>failed := failed st + 1,
              failed_urls := failed_urls st @ [(url, str_exn ex)],
              trace := trace st @ item_events e idx url @
                [Status (''Failed: '' @ take 30 (basename url) @ ''...''),
                 Progress (idx + 1) n,
                 Remaining (remaining_time (clock_done e idx - clock_start e) (idx + 1) n)]\<rparr>"
  by (simp add: process_item_def try_item_failure [OF assms] except_handler_def Let_def)

lemma process_item_success:
  assumes "item_outcome e idx url = Inr r"
  shows "process_item e start n idx url st =
           st\<lparr>total_size := total_size st + length (content r),
              total_time := total_time st + (clock_fetched e idx - clock_begin e idx),
              successful := successful st + 1,
              files := (files st)(image_name (start + idx)
                         (get_file_extension (header_value r) url) \<mapsto> content r),
              trace := trace st @ item_events e idx url @
                [MeanSpeed (mean_speed (total_size st + length (content r))
                   (total_time st + (clock_fetched e idx - clock_begin e idx))),
                 Write (image_name (start + idx) (get_file_extension (header_value r) url))
                   (content r),
                 Progress (idx + 1) n,
                 Remaining (remaining_time (clock_done e idx - clock_start e) (idx + 1) n)]\<rparr>"
  by (simp add: process_item_def try_item_success(1) [OF assms] Let_def)

lemma process_item_counts:
  "successful (process_item e start n idx url st) =
     successful st + (if succeeds e idx url then 1 else 0)"
  "failed (process_item e start n idx url st) =
     failed st + (if succeeds e idx url then 0 else 1)"
  "failed_urls (process_item e start n idx url st) = failed_urls st @ item_failures e idx url"
  by (cases "item_outcome e idx url";
      simp add: process_item_failure process_item_success succeeds_def item_failures_def)+

lemma process_item_trace:
  "writes (trace (process_item e start n idx url st)) =
     writes (trace st) @ item_writes e start idx url"
  "gets (trace (process_item e start n idx url st)) =
     gets (trace st) @ gets (item_events e idx url)"
  "progress_events (trace (process_item e start n idx url st)) =
     progress_events (trace st) @ [idx + 1]"
  by (cases "item_outcome e idx url";
      simp add: process_item_failure process_item_success item_writes_def item_events_quiet)+

lemma process_item_files:
  "files (process_item e start n idx url st) =
     files st ++ map_of (item_writes e start idx url)"
  by (cases "item_outcome e idx url")
     (simp_all add: process_item_failure process_item_success item_writes_def map_add_def
        fun_eq_iff)

lemma positions_Nil [simp]: "positions idx [] = []"
  by (simp add: positions_def)

lemma positions_Cons [simp]:
  "positions idx ((original_idx, url) # rest) = (idx, url) # positions (Suc idx) rest"
  by (simp add: positions_def)

lemma length_positions [simp]: "length (positions idx items) = length items"
  by (simp add: positions_def)

lemma process_all_counts:
  "successful (process_all e start n idx items st) =
     successful st + length (filter (\<lambda>(i, u). succeeds e i u) (positions idx items))"
  "failed (process_all e start n idx items st) =
     failed st + length (filter (\<lambda>(i, u). \<not> succeeds e i u) (positions idx items))"
  "failed_urls (process_all e start n idx items st) =
     failed_urls st @ concat (map (\<lambda>(i, u). item_failures e i u) (positions idx items))"
  by (induction e start n idx items st rule: process_all.induct;
      simp add: process_item_counts)+

lemma process_all_trace:
  "writes (trace (process_all e start n idx items st)) =
     writes (trace st) @ concat (map (\<lambda>(i, u). item_writes e start i u) (positions idx items))"
  "progress_events (trace (process_all e start n idx items st)) =
     progress_events (trace st) @ map Suc [idx..<idx + length items]"
  "gets (trace (process_all e start n idx items st)) =
     gets (trace st) @ concat (map (\<lambda>(i, u). gets (item_events e i u)) (positions idx items))"
  by (induction e start n idx items st rule: process_all.induct;
      simp add: process_item_trace upt_conv_Cons del: upt_Suc)+

lemma rev_item_writes [simp]: "rev (item_writes e start idx url) = item_writes e start idx url"
  by (simp add: item_writes_def split: sum.splits)

lemma process_all_files:
  "files (process_all e start n idx items st) =
     files st ++ map_of (rev (concat (map (\<lambda>(i, u). item_writes e start i u) (positions idx items))))"
  by (induction e start n idx items st rule: process_all.induct)
     (simp_all add: process_item_files)

lemma process_all_total:
  "successful (process_all e start n idx items st) + failed (process_all e start n idx items st)
     = successful st + failed st + length items"
proof -
  have "length (filter (\<lambda>(i, u). succeeds e i u) (positions idx items))
        + length (filter (\<lambda>(i, u). \<not> succeeds e i u) (positions idx items))
        = length (positions idx items)"
    using sum_length_filter_compl [of "\<lambda>(i, u). succeeds e i u" "positions idx items"]
    by (simp add: split_def)
  then show ?thesis
    by (simp add: process_all_counts)
qed

lemma download_loop_until_flag:
  assumes "k \<le> length items" "\<forall>i<k. \<not> flag e (idx + i)" "k < length items \<longrightarrow> flag e (idx + k)"
  shows "download_loop e start n idx items st =
           (idx + k,
            (let st' = process_all e start n idx (take k items) st
             in if k < length items
                then st'\<lparr>trace := trace st' @
                       [Status (''Cancelled. Downloaded '' @ str_nat (successful st') @ '' images.'')]\<rparr>
                else st'))"
  using assms
proof (induction e start n idx items st arbitrary: k rule: download_loop.induct)
  case (1 e start n idx st)
  then show ?case by simp
next
  case (2 e start n idx original_idx url rest st)
  show ?case
  proof (cases k)
    case 0
    with "2.prems" show ?thesis by simp
  next
    case (Suc k')
    have nf: "\<not> flag e idx"
      using "2.prems"(2) [rule_format, of 0] Suc by simp
    have a: "k' \<le> length rest" using "2.prems" Suc by simp
    have b: "\<forall>i<k'. \<not> flag e (Suc idx + i)"
    proof (intro allI impI)
      fix i assume "i < k'"
      with Suc have "Suc i < k" by simp
      with "2.prems"(2) have "\<not> flag e (idx + Suc i)" by blast
      then show "\<not> flag e (Suc idx + i)" by simp
    qed
    have c: "k' < length rest \<longrightarrow> flag e (Suc idx + k')"
      using "2.prems"(3) Suc by simp
    from "2.IH" [OF nf a b c] nf Suc show ?thesis
      by simp
  qed
qed

section \<open>Cancellation\<close>

lemma positions_snd: "(i, u) \<in> set (positions idx items) \<Longrightarrow> u \<in> snd ` set items"
  by (auto simp: positions_def in_set_enumerate_eq)

lemma positions_fst:
  "(i, u) \<in> set (positions idx items) \<Longrightarrow> idx \<le> i \<and> i < idx + length items"
  by (auto simp: positions_def in_set_enumerate_eq)

lemma process_all_gets_subset:
  "set (gets (trace (process_all e start n idx items st)))
     \<subseteq> set (gets (trace st)) \<union> snd ` set items"
proof -
  have "set (gets (item_events e i u)) \<subseteq> snd ` set items"
    if "(i, u) \<in> set (positions idx items)" for i u
    using item_events_quiet(3) [of e i u] positions_snd [OF that] by auto
  then show ?thesis
    by (auto simp: process_all_trace)
qed

lemma init_state_fields [simp]:
  "successful (init_state dir) = 0" "failed (init_state dir) = 0"
  "failed_urls (init_state dir) = []" "trace (init_state dir) = []"
  "files (init_state dir) = dir" "total_size (init_state dir) = 0"
  "total_time (init_state dir) = 0"
  by (simp_all add: init_state_def)

lemma download_until_flag:
  assumes "k \<le> length valid_urls" "\<forall>i<k. \<not> flag e i" "k < length valid_urls \<longrightarrow> flag e k"
  shows "download e start valid_urls dir =
    (let st' = process_all e start (length valid_urls) 0 (take k valid_urls) (init_state dir);
         st = (if k < length valid_urls
               then st'\<lparr>trace := trace st' @
                      [Status (''Cancelled. Downloaded '' @ str_nat (successful st') @ '' images.'')]\<rparr>
               else st')
     in (summarize e (length valid_urls) k st, k, st))"
  using download_loop_until_flag [of k valid_urls e 0 start "length valid_urls" "init_state dir"] assms
  by (simp add: download_def Let_def)

text \<open>
  C2. When the cancellation flag is first seen set with \<open>k\<close> of the \<open>n\<close> items
  processed (it was clear at the \<open>k\<close> earlier checks), exactly those \<open>k\<close> items have
  been attempted, each processed in full, retries included, as the loop without any
  cancellation processes them; no later item is fetched; the summary is the one of a
  cancelled run; and the successes and failures add up to \<open>k\<close>, so the \<open>n - k\<close>
  remaining items are neither attempted nor counted as failed.
\<close>

theorem cancellation_stops_after_current_item:
  "k \<le> length valid_urls \<and> (\<forall>i<k. \<not> flag e i) \<and> flag e k \<longrightarrow>
     (case download e start valid_urls dir of
        (summ, processed, st) \<Rightarrow>
          processed = k
          \<and> summ = Inr (Cancelled_Summary (successful st) (failed st)
                     (int (length valid_urls) - int k))
          \<and> successful st + failed st = k
          \<and> progress_events (trace st) = map Suc [0..<k]
          \<and> set (gets (trace st)) \<subseteq> snd ` set (take k valid_urls)
          \<and> st = (let st' = process_all e start (length valid_urls) 0 (take k valid_urls)
                              (init_state dir)
                  in if k < length valid_urls
                     then st'\<lparr>trace := trace st' @
                            [Status (''Cancelled. Downloaded '' @ str_nat (successful st')
                               @ '' images.'')]\<rparr>
                     else st'))"
proof (intro impI)
  assume h: "k \<le> length valid_urls \<and> (\<forall>i<k. \<not> flag e i) \<and> flag e k"
  define st' where "st' = process_all e start (length valid_urls) 0 (take k valid_urls) (init_state dir)"
  define st where "st = (if k < length valid_urls
               then st'\<lparr>trace := trace st' @
                      [Status (''Cancelled. Downloaded '' @ str_nat (successful st') @ '' images.'')]\<rparr>
               else st')"
  from h have d: "download e start valid_urls dir = (summarize e (length valid_urls) k st, k, st)"
    using download_until_flag [of k valid_urls e start dir]
    by (simp add: Let_def st_def st'_def)
  have len: "length (take k valid_urls) = k"
    using h by simp
  have tot: "successful st' + failed st' = k"
    unfolding st'_def process_all_total len by simp
  have sf: "successful st = successful st'" "failed st = failed st'"
    by (simp_all add: st_def)
  have pe': "progress_events (trace st') = map Suc [0..<k]"
    unfolding st'_def process_all_trace(2) len by simp
  then have pe: "progress_events (trace st) = map Suc [0..<k]"
    by (simp add: st_def)
  have "set (gets (trace st')) \<subseteq> snd ` set (take k valid_urls)"
    unfolding st'_def
    using process_all_gets_subset [of e start "length valid_urls" 0 "take k valid_urls" "init_state dir"]
    by (simp del: set_take_subset)
  then have ge: "set (gets (trace st)) \<subseteq> snd ` set (take k valid_urls)"
    by (cases "k < length valid_urls") (simp_all add: st_def)
  have su: "summarize e (length valid_urls) k st =
      Inr (Cancelled_Summary (successful st) (failed st) (int (length valid_urls) - int k))"
    using h tot sf by (simp add: summarize_def)
  from d su tot sf pe ge show "case download e start valid_urls dir of
        (summ, processed, st) \<Rightarrow>
          processed = k
          \<and> summ = Inr (Cancelled_Summary (successful st) (failed st)
                     (int (length valid_urls) - int k))
          \<and> successful st + failed st = k
          \<and> progress_events (trace st) = map Suc [0..<k]
          \<and> set (gets (trace st)) \<subseteq> snd ` set (take k valid_urls)
          \<and> st = (let st' = process_all e start (length valid_urls) 0 (take k valid_urls)
                              (init_state dir)
                  in if k < length valid_urls
                     then st'\<lparr>trace := trace st' @
                            [Status (''Cancelled. Downloaded '' @ str_nat (successful st')
                               @ '' images.'')]\<rparr>
                     else st')"
    by (simp add: Let_def st_def [symmetric] st'_def [symmetric])
qed

theorem cancellation_stops_after_current_item_witness:
  "\<not> flag (sample_env sample_net (\<lambda>k. 2 \<le> k)) 0
   \<and> \<not> flag (sample_env sample_net (\<lambda>k. 2 \<le> k)) 1
   \<and> flag (sample_env sample_net (\<lambda>k. 2 \<le> k)) 2
   \<and> fst (snd (download (sample_env sample_net (\<lambda>k. 2 \<le> k)) 1 sample_urls Map.empty)) = 2
   \<and> fst (download (sample_env sample_net (\<lambda>k. 2 \<le> k)) 1 sample_urls Map.empty)
       = Inr (Cancelled_Summary 1 1 2)
   \<and> gets (trace (snd (snd (download (sample_env sample_net (\<lambda>k. 2 \<le> k)) 1 sample_urls
        Map.empty)))) = [''http://example.com/a'', ''http://example.com/b.gif'']"
proof -
  let ?e = "sample_env sample_net (\<lambda>k. 2 \<le> k)"
  have f: "\<not> flag ?e 0" "\<not> flag ?e 1" "flag ?e 2"
    by (simp_all add: sample_env_def)
  have h: "2 \<le> length sample_urls \<and> (\<forall>i<2. \<not> flag ?e i) \<and> flag ?e 2"
    by (simp add: sample_env_def sample_urls_def)
  note c = cancellation_stops_after_current_item
    [where k = 2 and valid_urls = sample_urls and e = ?e and start = 1 and dir = Map.empty,
     THEN mp, OF h]
  obtain summ processed st where d: "download ?e 1 sample_urls Map.empty = (summ, processed, st)"
    by (rule prod_cases3)
  from c have p: "processed = 2"
    unfolding d prod.case by (rule conjunct1)
  have p': "fst (snd (download ?e 1 sample_urls Map.empty)) = 2"
    unfolding d snd_conv fst_conv by (rule p)
  have s: "fst (download ?e 1 sample_urls Map.empty) = Inr (Cancelled_Summary 1 1 2)"
    by code_simp
  have g: "gets (trace (snd (snd (download ?e 1 sample_urls Map.empty))))
      = [''http://example.com/a'', ''http://example.com/b.gif'']"
    by code_simp
  from f p' s g show ?thesis
    by (intro conjI)
qed

section \<open>Failures, files and progress\<close>

lemma download_loop_stops:
  "\<exists>k \<le> length items. (\<forall>i<k. \<not> flag e (idx + i)) \<and> (k < length items \<longrightarrow> flag e (idx + k))"
proof (cases "\<exists>i < length items. flag e (idx + i)")
  case True
  define k where "k = (LEAST i. flag e (idx + i))"
  from True obtain i where i: "i < length items" "flag e (idx + i)"
    by blast
  have fk: "flag e (idx + k)"
    unfolding k_def using i(2) by (rule LeastI)
  have "k \<le> i"
    unfolding k_def using i(2) by (rule Least_le)
  with i(1) have kl: "k \<le> length items"
    by simp
  have "\<not> flag e (idx + j)" if "j < k" for j
    using that not_less_Least unfolding k_def by blast
  with fk kl show ?thesis
    by blast
next
  case False
  then have "(\<forall>i<length items. \<not> flag e (idx + i))"
    by blast
  then show ?thesis
    by (intro exI [of _ "length items"]) simp
qed

lemma length_item_failures:
  "length (item_failures e i u) = (if succeeds e i u then 0 else 1)"
  by (simp add: item_failures_def succeeds_def split: sum.splits)

lemma length_concat_item_failures:
  "length (concat (map (\<lambda>(i, u). item_failures e i u) ps))
     = length (filter (\<lambda>(i, u). \<not> succeeds e i u) ps)"
  by (induction ps) (simp_all add: length_item_failures split_def)

lemma process_all_failed_urls_length:
  "length (failed_urls st) = failed st \<Longrightarrow>
   length (failed_urls (process_all e start n idx items st))
     = failed (process_all e start n idx items st)"
  by (simp add: process_all_counts length_concat_item_failures)

lemma summarize_total:
  assumes "length (failed_urls st) = failed st"
  shows "summarize e n processed st =
           (if flag e processed
            then Inr (Cancelled_Summary (successful st) (failed st)
                        (int n - int (successful st) - int (failed st)))
            else Inr (Complete_Summary (successful st) (failed st)
                        (if failed st > 0
                         then Some (take 50 (fst (hd (failed_urls st))), snd (hd (failed_urls st)))
                         else None)))"
proof (cases "failed_urls st")
  case Nil
  with assms show ?thesis by (simp add: summarize_def)
next
  case (Cons p ps)
  with assms show ?thesis by (cases p) (auto simp: summarize_def)
qed

lemma download_general:
  "\<exists>k \<le> length valid_urls. \<exists>st.
     (\<forall>i<k. \<not> flag e i) \<and> (k < length valid_urls \<longrightarrow> flag e k)
     \<and> download e start valid_urls dir = (summarize e (length valid_urls) k st, k, st)
     \<and> successful st + failed st = k
     \<and> length (failed_urls st) = failed st
     \<and> failed_urls st = concat (map (\<lambda>(i, u). item_failures e i u)
                            (positions 0 (take k valid_urls)))
     \<and> writes (trace st) = concat (map (\<lambda>(i, u). item_writes e start i u)
                            (positions 0 (take k valid_urls)))
     \<and> files st = dir ++ map_of (rev (concat (map (\<lambda>(i, u). item_writes e start i u)
                            (positions 0 (take k valid_urls)))))"
proof -
  from download_loop_stops [of valid_urls e 0] obtain k where
    k: "k \<le> length valid_urls" "\<forall>i<k. \<not> flag e i" "k < length valid_urls \<longrightarrow> flag e k"
    by auto
  define st' where "st' = process_all e start (length valid_urls) 0 (take k valid_urls) (init_state dir)"
  define st where "st = (if k < length valid_urls
               then st'\<lparr>trace := trace st' @
                      [Status (''Cancelled. Downloaded '' @ str_nat (successful st') @ '' images.'')]\<rparr>
               else st')"
  have d: "download e start valid_urls dir = (summarize e (length valid_urls) k st, k, st)"
    using download_until_flag [OF k, of start dir]
    by (simp add: Let_def st_def st'_def)
  have len: "length (take k valid_urls) = k"
    using k(1) by simp
  have tot: "successful st' + failed st' = k"
    unfolding st'_def process_all_total len by simp
  have fl: "length (failed_urls st') = failed st'"
    unfolding st'_def by (rule process_all_failed_urls_length) simp
  have fu: "failed_urls st' = concat (map (\<lambda>(i, u). item_failures e i u)
                            (positions 0 (take k valid_urls)))"
    unfolding st'_def process_all_counts by simp
  have wr: "writes (trace st') = concat (map (\<lambda>(i, u). item_writes e start i u)
                            (positions 0 (take k valid_urls)))"
    unfolding st'_def process_all_trace by simp
  have fi: "files st' = dir ++ map_of (rev (concat (map (\<lambda>(i, u). item_writes e start i u)
                            (positions 0 (take k valid_urls)))))"
    unfolding st'_def process_all_files by simp
  have eqs: "successful st = successful st'" "failed st = failed st'"
    "failed_urls st = failed_urls st'" "writes (trace st) = writes (trace st')"
    "files st = files st'"
    by (simp_all add: st_def)
  from k d tot fl fu wr fi show ?thesis
    unfolding eqs [symmetric] by blast
qed

lemma sample_item_1_fails:
  "item_outcome (sample_env sample_net (\<lambda>k. False)) 1 ''http://example.com/b.gif''
     = Inl (HTTPError 404 ''404 Client Error: R for url: http://example.com/a'')"
  by code_simp

lemma sample_item_0_succeeds:
  "item_outcome (sample_env sample_net (\<lambda>k. False)) 0 ''http://example.com/a''
     = Inr (sample_response 200 200)"
  by code_simp

text \<open>
  C8 (amended). An item that ends in an exception of any kind (the re-raised client
  error, the \<open>RequestException\<close> after the last retry whatever its cause, the
  \<open>ValueError\<close> of the size check) adds exactly one to \<open>failed\<close>, leaves
  \<open>successful\<close> as it is, appends the URL with the exception's message to
  \<open>failed_urls\<close>, and the loop goes on to the next item. No run ends in an exception:
  the summary is always produced, the counts add up to the number of items processed,
  and \<open>failed_urls\<close> holds one entry per failure. A run that was not cancelled has
  processed every item, and its summary carries the first failure (the URL cut to 50
  characters, and the message) whenever \<open>failed\<close> is positive; the summary of a
  cancelled run carries the two counts and the number of items left.
\<close>

theorem per_item_errors_are_recovered:
  "(item_outcome e idx url = Inl ex \<longrightarrow>
       failed (process_item e start n idx url st) = failed st + 1
       \<and> successful (process_item e start n idx url st) = successful st
       \<and> failed_urls (process_item e start n idx url st) = failed_urls st @ [(url, str_exn ex)]
       \<and> (\<not> flag e idx \<longrightarrow>
             download_loop e start n idx ((original_idx, url) # rest) st
               = download_loop e start n (Suc idx) rest (process_item e start n idx url st)))
   \<and> (case download e start valid_urls dir of
        (summ, processed, st) \<Rightarrow>
          processed \<le> length valid_urls
          \<and> successful st + failed st = processed
          \<and> failed_urls st = concat (map (\<lambda>(i, u). item_failures e i u)
                                 (positions 0 (take processed valid_urls)))
          \<and> length (failed_urls st) = failed st
          \<and> (flag e processed \<longrightarrow>
                summ = Inr (Cancelled_Summary (successful st) (failed st)
                         (int (length valid_urls) - int processed)))
          \<and> (\<not> flag e processed \<longrightarrow>
                processed = length valid_urls
                \<and> summ = Inr (Complete_Summary (successful st) (failed st)
                           (if 0 < failed st
                            then Some (take 50 (fst (hd (failed_urls st))),
                                       snd (hd (failed_urls st)))
                            else None))))"
proof (intro conjI impI)
  assume h: "item_outcome e idx url = Inl ex"
  then show "failed (process_item e start n idx url st) = failed st + 1"
    "successful (process_item e start n idx url st) = successful st"
    "failed_urls (process_item e start n idx url st) = failed_urls st @ [(url, str_exn ex)]"
    by (simp_all add: process_item_counts succeeds_def item_failures_def)
  assume "\<not> flag e idx"
  then show "download_loop e start n idx ((original_idx, url) # rest) st
               = download_loop e start n (Suc idx) rest (process_item e start n idx url st)"
    by simp
next
  from download_general [of valid_urls e start dir] obtain k st where
    k: "k \<le> length valid_urls" "k < length valid_urls \<longrightarrow> flag e k"
      "download e start valid_urls dir = (summarize e (length valid_urls) k st, k, st)"
      "successful st + failed st = k"
      "length (failed_urls st) = failed st"
      "failed_urls st = concat (map (\<lambda>(i, u). item_failures e i u)
                            (positions 0 (take k valid_urls)))"
    by blast
  have nk: "int (length valid_urls) - int (successful st) - int (failed st)
      = int (length valid_urls) - int k"
    using k(4) by simp
  have "\<not> flag e k \<Longrightarrow> k = length valid_urls"
    using k(1,2) by auto
  with k nk show "case download e start valid_urls dir of
        (summ, processed, st) \<Rightarrow>
          processed \<le> length valid_urls
          \<and> successful st + failed st = processed
          \<and> failed_urls st = concat (map (\<lambda>(i, u). item_failures e i u)
                                 (positions 0 (take processed valid_urls)))
          \<and> length (failed_urls st) = failed st
          \<and> (flag e processed \<longrightarrow>
                summ = Inr (Cancelled_Summary (successful st) (failed st)
                         (int (length valid_urls) - int processed)))
          \<and> (\<not> flag e processed \<longrightarrow>
                processed = length valid_urls
                \<and> summ = Inr (Complete_Summary (successful st) (failed st)
                           (if 0 < failed st
                            then Some (take 50 (fst (hd (failed_urls st))),
                                       snd (hd (failed_urls st)))
                            else None)))"
    by (simp add: summarize_total)
qed

theorem per_item_errors_are_recovered_witness:
  "failed (process_item (sample_env sample_net (\<lambda>k. False)) 1 4 1 ''http://example.com/b.gif''
       (init_state Map.empty)) = failed (init_state Map.empty) + 1
   \<and> failed_urls (process_item (sample_env sample_net (\<lambda>k. False)) 1 4 1
       ''http://example.com/b.gif'' (init_state Map.empty))
     = failed_urls (init_state Map.empty) @
         [(''http://example.com/b.gif'',
           str_exn (HTTPError 404 ''404 Client Error: R for url: http://example.com/a''))]
   \<and> fst (snd (download (sample_env sample_net (\<lambda>k. False)) 1 sample_urls Map.empty))
       = length sample_urls
   \<and> fst (download (sample_env sample_net (\<lambda>k. False)) 1 sample_urls Map.empty)
       = Inr (Complete_Summary 2 2
           (Some (''http://example.com/b.gif'',
                  ''404 Client Error: R for url: http://example.com/a'')))"
proof -
  let ?e = "sample_env sample_net (\<lambda>k. False)"
  let ?u = "''http://example.com/b.gif''"
  let ?x = "HTTPError 404 ''404 Client Error: R for url: http://example.com/a''"
  note t = per_item_errors_are_recovered [where e = ?e and idx = 1 and url = ?u and ex = ?x
      and start = 1 and n = 4 and st = "init_state Map.empty" and original_idx = 2 and rest = "[]"
      and valid_urls = sample_urls and dir = Map.empty]
  note a = t [THEN conjunct1, THEN mp, OF sample_item_1_fails]
  note b = t [THEN conjunct2]
  from a have a1: "failed (process_item ?e 1 4 1 ?u (init_state Map.empty))
      = failed (init_state Map.empty) + 1"
    by (rule conjunct1)
  from a have a2: "failed_urls (process_item ?e 1 4 1 ?u (init_state Map.empty))
      = failed_urls (init_state Map.empty) @ [(?u, str_exn ?x)]"
    by blast
  obtain summ processed st where d: "download ?e 1 sample_urls Map.empty = (summ, processed, st)"
    by (rule prod_cases3)
  have nf: "\<not> flag ?e processed"
    by (simp add: sample_env_def)
  from b nf have "processed = length sample_urls"
    unfolding d prod.case by blast
  then have b1: "fst (snd (download ?e 1 sample_urls Map.empty)) = length sample_urls"
    unfolding d snd_conv fst_conv .
  have b2: "fst (download ?e 1 sample_urls Map.empty)
       = Inr (Complete_Summary 2 2
           (Some (''http://example.com/b.gif'',
                  ''404 Client Error: R for url: http://example.com/a'')))"
    by code_simp
  from a1 a2 b1 b2 show ?thesis
    by (intro conjI)
qed

text \<open>
  C8 as stated fails for a cancelled run: with a 404 on the first item and the flag set
  before the second, the summary is the cancelled one, which has one failure and no
  failure message.
\<close>

theorem cancelled_summary_without_failure_message_counterexample:
  "fst (download (sample_env (\<lambda>i. script [Response (sample_response 404 0)]) (\<lambda>k. 1 \<le> k))
          1 sample_urls Map.empty) = Inr (Cancelled_Summary 0 1 3)
   \<and> failed (snd (snd (download (sample_env (\<lambda>i. script [Response (sample_response 404 0)])
          (\<lambda>k. 1 \<le> k)) 1 sample_urls Map.empty))) = 1
   \<and> failed_urls (snd (snd (download (sample_env (\<lambda>i. script [Response (sample_response 404 0)])
          (\<lambda>k. 1 \<le> k)) 1 sample_urls Map.empty)))
       = [(''http://example.com/a'', ''404 Client Error: R for url: http://example.com/a'')]"
  by code_simp

text \<open>
  C10. An item that ends in an exception, of any kind, leaves the destination directory
  as it was and writes no file. A file is written only for an item whose download
  returned a response of at least 100 bytes, and then exactly that one file changes.
  Over a whole loop the directory changes only by the files of the successful items.
\<close>

theorem failed_item_writes_nothing:
  "(item_outcome e idx url = Inl ex \<longrightarrow>
      files (process_item e start n idx url st) = files st
      \<and> writes (trace (process_item e start n idx url st)) = writes (trace st))
   \<and> (item_outcome e idx url = Inr r \<longrightarrow>
      100 \<le> length (content r)
      \<and> fst (download_with_retry (net e idx) url REQUEST_TIMEOUT MAX_RETRIES) = Inr r
      \<and> files (process_item e start n idx url st) =
          (files st)(image_name (start + idx) (get_file_extension (header_value r) url)
                     \<mapsto> content r)
      \<and> writes (trace (process_item e start n idx url st)) =
          writes (trace st) @
            [(image_name (start + idx) (get_file_extension (header_value r) url), content r)])
   \<and> files (process_all e start n idx items st) =
        files st ++ map_of (rev (concat (map (\<lambda>(i, u). item_writes e start i u)
                                   (positions idx items))))"
proof (intro conjI impI)
  assume h: "item_outcome e idx url = Inl ex"
  then show "files (process_item e start n idx url st) = files st"
    by (simp add: process_item_files item_writes_def)
  from h show "writes (trace (process_item e start n idx url st)) = writes (trace st)"
    by (simp add: process_item_trace item_writes_def)
next
  assume h: "item_outcome e idx url = Inr r"
  then show "100 \<le> length (content r)"
    by (rule try_item_success(2))
  from h show "fst (download_with_retry (net e idx) url REQUEST_TIMEOUT MAX_RETRIES) = Inr r"
    by (auto simp: item_outcome_def split: sum.splits if_splits)
  from h show "files (process_item e start n idx url st) =
          (files st)(image_name (start + idx) (get_file_extension (header_value r) url)
                     \<mapsto> content r)"
    by (simp add: process_item_success)
  from h show "writes (trace (process_item e start n idx url st)) =
          writes (trace st) @
            [(image_name (start + idx) (get_file_extension (header_value r) url), content r)]"
    by (simp add: process_item_trace item_writes_def)
next
  show "files (process_all e start n idx items st) =
        files st ++ map_of (rev (concat (map (\<lambda>(i, u). item_writes e start i u)
                                   (positions idx items))))"
    by (rule process_all_files)
qed

theorem failed_item_writes_nothing_witness:
  "files (process_item (sample_env sample_net (\<lambda>k. False)) 1 4 1 ''http://example.com/b.gif''
       (init_state Map.empty)) = files (init_state Map.empty)
   \<and> writes (trace (process_item (sample_env sample_net (\<lambda>k. False)) 1 4 1
       ''http://example.com/b.gif'' (init_state Map.empty)))
       = writes (trace (init_state Map.empty))
   \<and> 100 \<le> length (content (sample_response 200 200))
   \<and> writes (trace (process_item (sample_env sample_net (\<lambda>k. False)) 1 4 0
       ''http://example.com/a'' (init_state Map.empty)))
       = writes (trace (init_state Map.empty)) @
           [(image_name (1 + 0)
               (get_file_extension (header_value (sample_response 200 200))
                  ''http://example.com/a''),
             content (sample_response 200 200))]
   \<and> image_name (1 + 0)
        (get_file_extension (header_value (sample_response 200 200)) ''http://example.com/a'')
       = ''image_1.png''"
proof -
  let ?e = "sample_env sample_net (\<lambda>k. False)"
  note t1 = failed_item_writes_nothing [where e = ?e and idx = 1
      and url = "''http://example.com/b.gif''"
      and ex = "HTTPError 404 ''404 Client Error: R for url: http://example.com/a''"
      and start = 1 and n = 4 and st = "init_state Map.empty",
      THEN conjunct1, THEN mp, OF sample_item_1_fails]
  note t2 = failed_item_writes_nothing [where e = ?e and idx = 0
      and url = "''http://example.com/a''" and r = "sample_response 200 200"
      and start = 1 and n = 4 and st = "init_state Map.empty",
      THEN conjunct2, THEN conjunct1, THEN mp, OF sample_item_0_succeeds]
  from t1 have a1: "files (process_item ?e 1 4 1 ''http://example.com/b.gif''
       (init_state Map.empty)) = files (init_state Map.empty)"
    by (rule conjunct1)
  from t1 have a2: "writes (trace (process_item ?e 1 4 1
       ''http://example.com/b.gif'' (init_state Map.empty)))
       = writes (trace (init_state Map.empty))"
    by (rule conjunct2)
  from t2 have b1: "100 \<le> length (content (sample_response 200 200))"
    by (rule conjunct1)
  from t2 have b2: "writes (trace (process_item ?e 1 4 0
       ''http://example.com/a'' (init_state Map.empty)))
       = writes (trace (init_state Map.empty)) @
           [(image_name (1 + 0)
               (get_file_extension (header_value (sample_response 200 200))
                  ''http://example.com/a''),
             content (sample_response 200 200))]"
    by blast
  have b3: "image_name (1 + 0)
        (get_file_extension (header_value (sample_response 200 200)) ''http://example.com/a'')
       = ''image_1.png''"
    by code_simp
  from a1 a2 b1 b2 b3 show ?thesis
    by (intro conjI)
qed

text \<open>
  C5. The mean speed is \<open>(bytes * 8) / (seconds * 1000000)\<close> for positive cumulative
  seconds and \<open>0\<close> at zero seconds, so 1,000,000 bytes in 8 seconds give exactly 1;
  the estimate of the remaining time is \<open>(elapsed / completed) * (total - completed)\<close>,
  so 5 of 10 items in 5 seconds give 5. In the loop a successful item adds its payload
  length and its download time to the running totals and reports the mean speed of the
  new totals; a failed item leaves the totals alone; after every item the progress
  \<open>idx + 1\<close> and the estimate from the time since the start are reported. Seconds are
  exact rationals in this model.
\<close>

theorem progress_accounting:
  "(0 < t \<longrightarrow> mean_speed b t = (of_nat b * 8) / (t * 1000000))
   \<and> mean_speed b 0 = 0
   \<and> mean_speed 1000000 8 = 1
   \<and> (0 < c \<longrightarrow> remaining_time el c n = (el / of_nat c) * (of_nat n - of_nat c))
   \<and> remaining_time 5 5 10 = 5
   \<and> (item_outcome e idx url = Inr r \<longrightarrow>
        total_size (process_item e start n idx url st) = total_size st + length (content r)
        \<and> total_time (process_item e start n idx url st) =
            total_time st + (clock_fetched e idx - clock_begin e idx)
        \<and> trace (process_item e start n idx url st) =
            trace st @ item_events e idx url @
              [MeanSpeed (mean_speed (total_size (process_item e start n idx url st))
                 (total_time (process_item e start n idx url st))),
               Write (image_name (start + idx) (get_file_extension (header_value r) url))
                 (content r),
               Progress (idx + 1) n,
               Remaining (remaining_time (clock_done e idx - clock_start e) (idx + 1) n)])
   \<and> (item_outcome e idx url = Inl ex \<longrightarrow>
        total_size (process_item e start n idx url st) = total_size st
        \<and> total_time (process_item e start n idx url st) = total_time st
        \<and> trace (process_item e start n idx url st) =
            trace st @ item_events e idx url @
              [Status (''Failed: '' @ take 30 (basename url) @ ''...''),
               Progress (idx + 1) n,
               Remaining (remaining_time (clock_done e idx - clock_start e) (idx + 1) n)])"
proof (intro conjI impI)
  show "mean_speed 1000000 8 = 1" "mean_speed b 0 = 0" "remaining_time 5 5 10 = 5"
    by (simp_all add: mean_speed_def remaining_time_def)
next
  assume "0 < t"
  then show "mean_speed b t = (of_nat b * 8) / (t * 1000000)"
    by (simp add: mean_speed_def)
next
  assume "0 < c"
  show "remaining_time el c n = (el / of_nat c) * (of_nat n - of_nat c)"
    by (simp add: remaining_time_def)
next
  assume h: "item_outcome e idx url = Inr r"
  show "total_size (process_item e start n idx url st) = total_size st + length (content r)"
    "total_time (process_item e start n idx url st) =
            total_time st + (clock_fetched e idx - clock_begin e idx)"
    "trace (process_item e start n idx url st) =
            trace st @ item_events e idx url @
              [MeanSpeed (mean_speed (total_size (process_item e start n idx url st))
                 (total_time (process_item e start n idx url st))),
               Write (image_name (start + idx) (get_file_extension (header_value r) url))
                 (content r),
               Progress (idx + 1) n,
               Remaining (remaining_time (clock_done e idx - clock_start e) (idx + 1) n)]"
    by (simp_all add: process_item_success [OF h])
next
  assume h: "item_outcome e idx url = Inl ex"
  show "total_size (process_item e start n idx url st) = total_size st"
    "total_time (process_item e start n idx url st) = total_time st"
    "trace (process_item e start n idx url st) =
            trace st @ item_events e idx url @
              [Status (''Failed: '' @ take 30 (basename url) @ ''...''),
               Progress (idx + 1) n,
               Remaining (remaining_time (clock_done e idx - clock_start e) (idx + 1) n)]"
    by (simp_all add: process_item_failure [OF h])
qed

theorem progress_accounting_witness:
  "mean_speed 1000000 8 = (of_nat 1000000 * 8) / (8 * 1000000)
   \<and> remaining_time 5 5 10 = (5 / of_nat 5) * (of_nat 10 - of_nat 5)
   \<and> total_size (process_item (sample_env sample_net (\<lambda>k. False)) 1 4 0
        ''http://example.com/a'' (init_state Map.empty))
       = total_size (init_state Map.empty) + length (content (sample_response 200 200))
   \<and> total_time (process_item (sample_env sample_net (\<lambda>k. False)) 1 4 1
        ''http://example.com/b.gif'' (init_state Map.empty))
       = total_time (init_state Map.empty)
   \<and> trace (process_item (sample_env sample_net (\<lambda>k. False)) 1 4 0
        ''http://example.com/a'' (init_state Map.empty))
       = [Get ''http://example.com/a'' 30, MeanSpeed (2 / 625),
          Write ''image_1.png'' (replicate 200 CHR ''x''), Progress 1 4, Remaining 3]"
proof -
  let ?e = "sample_env sample_net (\<lambda>k. False)"
  note t1 = progress_accounting [where t = 8 and b = 1000000 and c = 5 and el = 5 and n = 10
      and e = ?e and idx = 0 and url = "''http://example.com/a''" and r = "sample_response 200 200"
      and start = 1 and st = "init_state Map.empty"]
  note t2 = progress_accounting [where e = ?e and idx = 1 and url = "''http://example.com/b.gif''"
      and ex = "HTTPError 404 ''404 Client Error: R for url: http://example.com/a''"
      and start = 1 and n = 4 and st = "init_state Map.empty"]
  note t3 = progress_accounting [where e = ?e and idx = 0 and url = "''http://example.com/a''"
      and r = "sample_response 200 200" and start = 1 and n = 4 and st = "init_state Map.empty"]
  have p: "(0::rat) < 8" "(0::nat) < 5"
    by simp_all
  from t1 p(1) have a1: "mean_speed 1000000 8 = (of_nat 1000000 * 8) / (8 * 1000000)"
    by blast
  from t1 p(2) have a2: "remaining_time 5 5 10 = (5 / of_nat 5) * (of_nat 10 - of_nat 5)"
    by blast
  from t3 sample_item_0_succeeds have a3: "total_size (process_item ?e 1 4 0
        ''http://example.com/a'' (init_state Map.empty))
       = total_size (init_state Map.empty) + length (content (sample_response 200 200))"
    by blast
  from t2 sample_item_1_fails have a4: "total_time (process_item ?e 1 4 1
        ''http://example.com/b.gif'' (init_state Map.empty))
       = total_time (init_state Map.empty)"
    by blast
  have a5: "trace (process_item ?e 1 4 0 ''http://example.com/a'' (init_state Map.empty))
       = [Get ''http://example.com/a'' 30, MeanSpeed (2 / 625),
          Write ''image_1.png'' (replicate 200 CHR ''x''), Progress 1 4, Remaining 3]"
    by code_simp
  from a1 a2 a3 a4 a5 show ?thesis
    by (intro conjI)
qed

section \<open>Decimal numbers, file names and the search for the pattern\<close>

lemma digit_char_props:
  assumes "d < 10"
  shows "is_digit (digit_char d)" "digit_val (digit_char d) = d"
  using assms by (simp_all add: is_digit_def digit_char_def digit_val_def code_of_def)

lemma dot_not_digit: "\<not> is_digit CHR ''.''"
  by (simp add: is_digit_def code_of_def)

lemma py_int_snoc: "py_int (ds @ [c]) = 10 * py_int ds + digit_val c"
  by (simp add: py_int_def)

lemma str_nat_props:
  "list_all is_digit (str_nat n) \<and> str_nat n \<noteq> [] \<and> py_int (str_nat n) = n"
proof (induction n rule: str_nat.induct)
  case (1 n)
  show ?case
  proof (cases "n < 10")
    case True
    then show ?thesis
      by (simp add: str_nat.simps [of n] digit_char_props py_int_def)
  next
    case False
    have m: "n mod 10 < 10" by simp
    from False "1.IH" show ?thesis
      by (simp add: str_nat.simps [of n] digit_char_props [OF m] py_int_snoc)
  qed
qed

lemma str_nat_inj: "str_nat a = str_nat b \<Longrightarrow> a = b"
proof -
  assume "str_nat a = str_nat b"
  then have "py_int (str_nat a) = py_int (str_nat b)"
    by simp
  then show "a = b"
    by (simp add: str_nat_props)
qed

lemma takeWhile_digits:
  assumes "list_all is_digit ds" "\<not> is_digit c"
  shows "takeWhile is_digit (ds @ c # t) = ds" "dropWhile is_digit (ds @ c # t) = c # t"
  using assms by (induction ds) simp_all

lemma url_fallback_in: "url_fallback u exts \<in> set (''.jpg'' # exts)"
  by (induction exts) auto

lemma extension_in:
  "get_file_extension ct url \<in> set (''.jpg'' # url_extensions @ map snd content_type_map)"
proof -
  have 1: "url_fallback (lower url) url_extensions
      \<in> set (''.jpg'' # url_extensions @ map snd content_type_map)"
    using url_fallback_in [of "lower url" url_extensions] by auto
  have 2: "y \<in> set (''.jpg'' # url_extensions @ map snd content_type_map)"
    if "map_of content_type_map x = Some y" for x y
    using map_of_SomeD [OF that] by force
  show ?thesis
    unfolding get_file_extension_def Let_def
    using 1 2 by (auto split: option.splits)
qed

lemma known_extensions_shape:
  "list_all rest_matches (''.jpg'' # url_extensions @ map snd content_type_map)"
  by code_simp

lemma extension_rest_matches: "rest_matches (get_file_extension ct url)"
  using extension_in [of ct url] known_extensions_shape
  unfolding list_all_iff by blast

lemma extension_shape:
  "\<exists>w t. get_file_extension ct url = CHR ''.'' # w # t \<and> is_word w"
  using extension_rest_matches [of ct url]
  by (auto simp: rest_matches_def split: list.splits)

lemma image_name_inj:
  assumes "image_name a (get_file_extension c u) = image_name b (get_file_extension c' u')"
  shows "a = b"
proof -
  from extension_shape [of c u] obtain w t where 1: "get_file_extension c u = CHR ''.'' # w # t"
    by blast
  from extension_shape [of c' u'] obtain w' t' where 2: "get_file_extension c' u' = CHR ''.'' # w' # t'"
    by blast
  from assms have "str_nat a @ CHR ''.'' # w # t = str_nat b @ CHR ''.'' # w' # t'"
    by (simp add: image_name_def 1 2)
  then have "takeWhile is_digit (str_nat a @ CHR ''.'' # w # t)
      = takeWhile is_digit (str_nat b @ CHR ''.'' # w' # t')"
    by simp
  then have "str_nat a = str_nat b"
    by (simp add: takeWhile_digits(1) str_nat_props dot_not_digit)
  then show ?thesis
    by (rule str_nat_inj)
qed

lemma rest_matches_iff: "rest_matches x \<longleftrightarrow> (\<exists>w t. x = CHR ''.'' # w # t \<and> is_word w)"
  by (auto simp: rest_matches_def split: list.splits)

lemma digits_backtrack_Some:
  "digits_backtrack r k = Some g \<Longrightarrow> k \<le> length (takeWhile is_digit r) \<Longrightarrow>
   g = takeWhile is_digit r \<and> g \<noteq> [] \<and> rest_matches (drop (length g) r)"
proof (induction k)
  case 0
  then show ?case by simp
next
  case (Suc k)
  show ?case
  proof (cases "rest_matches (drop (Suc k) r)")
    case False
    with Suc.prems(1) have "digits_backtrack r k = Some g"
      by simp
    moreover from Suc.prems(2) have "k \<le> length (takeWhile is_digit r)"
      by simp
    ultimately show ?thesis
      by (rule Suc.IH)
  next
    case True
    with Suc.prems have g: "g = take (Suc k) r"
      by simp
    from True obtain w t where d: "drop (Suc k) r = CHR ''.'' # w # t"
      unfolding rest_matches_iff by blast
    have "\<not> Suc k < length (takeWhile is_digit r)"
    proof
      assume l: "Suc k < length (takeWhile is_digit r)"
      then have "takeWhile is_digit r ! Suc k \<in> set (takeWhile is_digit r)"
        by (rule nth_mem)
      then have "is_digit (takeWhile is_digit r ! Suc k)"
        by (rule set_takeWhileD [THEN conjunct2])
      moreover have "takeWhile is_digit r ! Suc k = r ! Suc k"
        using l by (rule takeWhile_nth)
      moreover have "Suc k < length r"
        using l length_takeWhile_le [of is_digit r] by simp
      then have "r ! Suc k = hd (drop (Suc k) r)"
        by (simp add: hd_drop_conv_nth)
      ultimately show False
        using d dot_not_digit by simp
    qed
    with Suc.prems(2) have e: "Suc k = length (takeWhile is_digit r)"
      by simp
    have "take (length (takeWhile is_digit r)) r = takeWhile is_digit r"
      by (rule takeWhile_eq_take [symmetric])
    with g e have g': "g = takeWhile is_digit r"
      by simp
    with e True show ?thesis
      by auto
  qed
qed

lemma digits_backtrack_full:
  "rest_matches (drop n r) \<Longrightarrow> 0 < n \<Longrightarrow> digits_backtrack r n = Some (take n r)"
  by (cases n) simp_all

lemma match_here_intro:
  assumes "ds \<noteq> []" "list_all is_digit ds" "is_word w"
  shows "match_here (''image_'' @ ds @ CHR ''.'' # w # t) = Some ds"
proof -
  define p where "p = ''image_''"
  have tw: "takeWhile is_digit (ds @ CHR ''.'' # w # t) = ds"
    using assms(2) dot_not_digit by (rule takeWhile_digits(1))
  have rm: "rest_matches (drop (length ds) (ds @ CHR ''.'' # w # t))"
    using assms(3) by (simp add: rest_matches_iff)
  have "digits_backtrack (ds @ CHR ''.'' # w # t) (length ds) = Some (take (length ds) (ds @ CHR ''.'' # w # t))"
    using rm assms(1) by (intro digits_backtrack_full) simp_all
  then have "digits_backtrack (ds @ CHR ''.'' # w # t) (length ds) = Some ds"
    by simp
  then have "match_here (p @ ds @ CHR ''.'' # w # t) = Some ds"
    unfolding match_here_def p_def [symmetric] by (simp add: tw Let_def)
  then show ?thesis
    unfolding p_def .
qed

lemma match_here_elim:
  assumes "match_here s = Some ds"
  shows "\<exists>w t. s = ''image_'' @ ds @ CHR ''.'' # w # t \<and> ds \<noteq> [] \<and> list_all is_digit ds \<and> is_word w"
proof -
  define p where "p = ''image_''"
  define r where "r = drop (length p) s"
  from assms have pre: "prefix p s"
    unfolding match_here_def p_def [symmetric] by (simp split: if_splits)
  then have s: "s = p @ r"
    unfolding r_def by (auto simp: prefix_def)
  from assms pre have "digits_backtrack r (length (takeWhile is_digit r)) = Some ds"
    unfolding match_here_def p_def [symmetric] r_def by (simp add: Let_def)
  from digits_backtrack_Some [OF this le_refl] have
    d: "ds = takeWhile is_digit r" "ds \<noteq> []" "rest_matches (drop (length ds) r)"
    by blast+
  from d(3) obtain w t where wt: "drop (length ds) r = CHR ''.'' # w # t" "is_word w"
    unfolding rest_matches_iff by blast
  have "r = take (length ds) r @ drop (length ds) r"
    by simp
  also have "take (length ds) r = ds"
    unfolding d(1) by (rule takeWhile_eq_take [symmetric])
  finally have r: "r = ds @ CHR ''.'' # w # t"
    using wt(1) by simp
  have "list_all is_digit ds"
    unfolding d(1) list_all_iff by (auto dest: set_takeWhileD)
  with s r d(2) wt(2) show ?thesis
    unfolding p_def by blast
qed

lemma match_here_iff:
  "match_here s = Some ds \<longleftrightarrow>
   (\<exists>w t. s = ''image_'' @ ds @ CHR ''.'' # w # t \<and> ds \<noteq> [] \<and> list_all is_digit ds \<and> is_word w)"
  using match_here_elim [of s ds] match_here_intro [of ds] by blast

lemma occurs_at_match:
  "occurs_at name pre ds \<longleftrightarrow> (\<exists>suf. name = pre @ suf \<and> match_here suf = Some ds)"
  unfolding occurs_at_def match_here_iff by auto

lemma re_search_None:
  "re_search s = None \<longleftrightarrow> (\<forall>pre suf. s = pre @ suf \<longrightarrow> match_here suf = None)"
proof (induction s)
  case Nil
  then show ?case by simp
next
  case (Cons c cs)
  have "(\<forall>pre suf. c # cs = pre @ suf \<longrightarrow> match_here suf = None)
      \<longleftrightarrow> match_here (c # cs) = None \<and> (\<forall>pre suf. cs = pre @ suf \<longrightarrow> match_here suf = None)"
    by (auto simp: Cons_eq_append_conv)
  with Cons show ?case
    by (simp split: option.splits)
qed

lemma re_search_leftmost:
  "match_here suf = Some g \<Longrightarrow>
   (\<forall>pre' suf'. pre @ suf = pre' @ suf' \<and> length pre' < length pre \<longrightarrow> match_here suf' = None) \<Longrightarrow>
   re_search (pre @ suf) = Some g"
proof (induction pre)
  case Nil
  then show ?case by (cases suf) simp_all
next
  case (Cons p ps)
  have "match_here ((p # ps) @ suf) = None"
    using Cons.prems(2) [rule_format, of "[]" "(p # ps) @ suf"] by simp
  moreover have "\<forall>pre' suf'. ps @ suf = pre' @ suf' \<and> length pre' < length ps \<longrightarrow> match_here suf' = None"
  proof (intro allI impI)
    fix pre' suf' assume a: "ps @ suf = pre' @ suf' \<and> length pre' < length ps"
    then have "(p # ps) @ suf = (p # pre') @ suf' \<and> length (p # pre') < length (p # ps)"
      by simp
    with Cons.prems(2) show "match_here suf' = None"
      by blast
  qed
  ultimately show ?case
    using Cons.IH [OF Cons.prems(1)] by simp
qed

lemma re_search_Some:
  "re_search s = Some g \<Longrightarrow>
   \<exists>pre suf. s = pre @ suf \<and> match_here suf = Some g
     \<and> (\<forall>pre' suf'. s = pre' @ suf' \<and> length pre' < length pre \<longrightarrow> match_here suf' = None)"
proof (induction s)
  case Nil
  then have m: "match_here [] = Some g"
    by simp
  show ?case
  proof (rule exI [of _ "[]"], rule exI [of _ "[]"], intro conjI allI impI)
    show "[] = [] @ ([]::string)" by simp
    show "match_here [] = Some g" by (rule m)
  next
    fix pre' suf' :: string
    assume "[] = pre' @ suf' \<and> length pre' < length ([]::string)"
    then have False by simp
    then show "match_here suf' = None" ..
  qed
next
  case (Cons c cs)
  show ?case
  proof (cases "match_here (c # cs)")
    case (Some g')
    with Cons.prems have m: "match_here (c # cs) = Some g"
      by simp
    show ?thesis
    proof (rule exI [of _ "[]"], rule exI [of _ "c # cs"], intro conjI allI impI)
      show "c # cs = [] @ c # cs" by simp
      show "match_here (c # cs) = Some g" by (rule m)
    next
      fix pre' suf' :: string
      assume "c # cs = pre' @ suf' \<and> length pre' < length ([]::string)"
      then have False by simp
      then show "match_here suf' = None" ..
    qed
  next
    case None
    with Cons.prems have "re_search cs = Some g"
      by simp
    from Cons.IH [OF this] obtain pre suf where
      ih1: "cs = pre @ suf" and ih2: "match_here suf = Some g" and
      ih3: "\<forall>pre' suf'. cs = pre' @ suf' \<and> length pre' < length pre \<longrightarrow> match_here suf' = None"
      by blast
    show ?thesis
    proof (rule exI [of _ "c # pre"], rule exI [of _ suf], intro conjI allI impI)
      show "c # cs = (c # pre) @ suf" unfolding ih1 by simp
      show "match_here suf = Some g" by (rule ih2)
    next
      fix pre' suf' :: string
      assume a: "c # cs = pre' @ suf' \<and> length pre' < length (c # pre)"
      show "match_here suf' = None"
      proof (cases pre')
        case Nil
        with a have "suf' = c # cs" by simp
        with None show ?thesis by simp
      next
        case (Cons x xs)
        from a have a1: "c # cs = pre' @ suf'" and a2: "length pre' < length (c # pre)"
          by blast+
        from a1 Cons have "cs = xs @ suf'" by simp
        moreover from a2 Cons have "length xs < length pre" by simp
        ultimately show ?thesis using ih3 by blast
      qed
    qed
  qed
qed

section \<open>The starting number\<close>

lemma matched_numbers_Nil [simp]: "matched_numbers [] = {}"
  by (simp add: matched_numbers_def)

lemma matched_numbers_Cons:
  "matched_numbers (img # imgs) =
     (case matched_number img of
        Some num \<Rightarrow> insert num (matched_numbers imgs)
      | None \<Rightarrow> matched_numbers imgs)"
  by (auto simp: matched_numbers_def split: option.splits)

lemma matched_numbers_set:
  "set imgs = set imgs' \<Longrightarrow> matched_numbers imgs = matched_numbers imgs'"
  by (simp add: matched_numbers_def)

lemma matched_numbers_ignored:
  "matched_number name = None \<Longrightarrow> matched_numbers (xs @ name # ys) = matched_numbers (xs @ ys)"
  by (auto simp: matched_numbers_def)

lemma finite_matched_numbers [simp]: "finite (matched_numbers imgs)"
  by (induction imgs) (simp_all add: matched_numbers_Cons split: option.splits)

lemma Max_insert_max:
  "finite M \<Longrightarrow> Max (insert (max a b) M) = Max (insert a (insert b M))"
  by (cases "M = {}") (simp_all add: max.assoc)

lemma scan_existing_Max:
  "scan_existing max_num imgs = Max (insert max_num (matched_numbers imgs))"
proof (induction imgs arbitrary: max_num)
  case Nil
  then show ?case by simp
next
  case (Cons img imgs)
  show ?case
  proof (cases "matched_number img")
    case None
    with Cons show ?thesis
      by (simp add: matched_numbers_Cons)
  next
    case (Some num)
    have "(if max_num < num then num else max_num) = max num max_num"
      by (simp add: max_def)
    with Some Cons [of "max num max_num"] show ?thesis
      by (simp add: matched_numbers_Cons Max_insert_max insert_commute)
  qed
qed

lemma starting_num_Max:
  "starting_num imgs = (if matched_numbers imgs = {} then 1 else 1 + Max (matched_numbers imgs))"
  by (simp add: starting_num_def scan_existing_Max)

lemma starting_num_above:
  "m \<in> matched_numbers imgs \<Longrightarrow> m < starting_num imgs"
proof -
  assume m: "m \<in> matched_numbers imgs"
  then have le: "m \<le> Max (matched_numbers imgs)"
    by simp
  from m have "matched_numbers imgs \<noteq> {}"
    by blast
  then have "starting_num imgs = 1 + Max (matched_numbers imgs)"
    by (simp add: starting_num_Max)
  with le show ?thesis
    by simp
qed

lemma re_search_match_here: "match_here s = Some g \<Longrightarrow> re_search s = Some g"
  by (cases s) simp_all

lemma matched_number_image:
  assumes "ext \<noteq> []" "is_word (hd ext)"
  shows "matched_number (''image_'' @ str_nat n @ ''.'' @ ext) = Some n"
proof -
  from assms obtain w t where e: "ext = w # t" "is_word w"
    by (cases ext) simp_all
  have "match_here (''image_'' @ str_nat n @ CHR ''.'' # w # t) = Some (str_nat n)"
    using str_nat_props [of n] e(2) by (intro match_here_intro) simp_all
  then have "re_search (''image_'' @ str_nat n @ CHR ''.'' # w # t) = Some (str_nat n)"
    by (rule re_search_match_here)
  then have "matched_number (''image_'' @ str_nat n @ CHR ''.'' # w # t) = Some n"
    by (simp add: matched_number_def str_nat_props)
  then show ?thesis
    unfolding e(1) by simp
qed

lemma matched_number_image_name:
  "matched_number (image_name n (get_file_extension ct url)) = Some n"
proof -
  from extension_shape [of ct url] obtain w t where
    e: "get_file_extension ct url = CHR ''.'' # w # t" "is_word w"
    by blast
  have "matched_number (''image_'' @ str_nat n @ ''.'' @ (w # t)) = Some n"
    using e(2) by (intro matched_number_image) simp_all
  then show ?thesis
    unfolding image_name_def e(1) by simp
qed

lemma starting_num_single:
  "matched_number img = Some n \<Longrightarrow> starting_num [img] = n + 1"
  by (simp add: starting_num_def)

text \<open>
  C3. The starting number is 1 when the listing is empty or no name in it carries a
  number, and otherwise one more than the largest number carried; it is above every
  number present, so gaps are never filled (files 1, 2 and 5 give 6); it depends on
  the set of names only, not on the order of the listing; the extension plays no part
  as long as it begins with a word character; and numbers are unbounded: a name written
  for any number \<open>n\<close>, with any extension the downloader produces, gives \<open>n + 1\<close>.
  A name carries a number when the search of the code finds the pattern in it.
\<close>

theorem starting_num_is_max_plus_one:
  "starting_num imgs = (if matched_numbers imgs = {} then 1 else 1 + Max (matched_numbers imgs))
   \<and> starting_num [] = 1
   \<and> ((\<forall>img \<in> set imgs. matched_number img = None) \<longrightarrow> starting_num imgs = 1)
   \<and> (\<forall>m \<in> matched_numbers imgs. m < starting_num imgs)
   \<and> (set imgs = set imgs' \<longrightarrow> starting_num imgs = starting_num imgs')
   \<and> (ext \<noteq> [] \<and> is_word (hd ext) \<longrightarrow>
        matched_number (''image_'' @ str_nat n @ ''.'' @ ext) = Some n
        \<and> starting_num [''image_'' @ str_nat n @ ''.'' @ ext] = n + 1)
   \<and> starting_num [image_name n (get_file_extension ct url)] = n + 1
   \<and> starting_num [''image_1.jpg'', ''image_2.png'', ''image_5.gif''] = 6"
proof (intro conjI impI ballI)
  show "starting_num imgs = (if matched_numbers imgs = {} then 1 else 1 + Max (matched_numbers imgs))"
    by (rule starting_num_Max)
  show "starting_num [] = 1"
    by (simp add: starting_num_def)
  show "starting_num [image_name n (get_file_extension ct url)] = n + 1"
    using matched_number_image_name by (rule starting_num_single)
  show "starting_num [''image_1.jpg'', ''image_2.png'', ''image_5.gif''] = 6"
    by code_simp
next
  assume "\<forall>img \<in> set imgs. matched_number img = None"
  then have "matched_numbers imgs = {}"
    by (auto simp: matched_numbers_def)
  then show "starting_num imgs = 1"
    by (simp add: starting_num_Max)
next
  fix m assume "m \<in> matched_numbers imgs"
  then show "m < starting_num imgs"
    by (rule starting_num_above)
next
  assume "set imgs = set imgs'"
  then have "matched_numbers imgs = matched_numbers imgs'"
    by (rule matched_numbers_set)
  then show "starting_num imgs = starting_num imgs'"
    by (simp add: starting_num_Max)
next
  assume h: "ext \<noteq> [] \<and> is_word (hd ext)"
  then have "ext \<noteq> []" "is_word (hd ext)"
    by blast+
  then show m: "matched_number (''image_'' @ str_nat n @ ''.'' @ ext) = Some n"
    by (rule matched_number_image)
  then show "starting_num [''image_'' @ str_nat n @ ''.'' @ ext] = n + 1"
    by (rule starting_num_single)
qed

theorem starting_num_is_max_plus_one_witness:
  "starting_num [''notes.txt'', ''photo_10.jpg'', ''image_abc.jpg''] = 1
   \<and> starting_num [''image_5.gif'', ''image_1.jpg'', ''image_2.png'']
       = starting_num [''image_1.jpg'', ''image_2.png'', ''image_5.gif'', ''image_2.png'']
   \<and> starting_num [''image_1.jpg'', ''image_2.png'', ''image_5.gif''] = 6
   \<and> matched_number (''image_'' @ str_nat 340282366920938463463374607431768211456 @ ''.'' @ ''webp'')
       = Some 340282366920938463463374607431768211456
   \<and> starting_num [''image_'' @ str_nat 340282366920938463463374607431768211456 @ ''.'' @ ''webp'']
       = 340282366920938463463374607431768211456 + 1"
proof -
  note t1 = starting_num_is_max_plus_one [where imgs = "[''notes.txt'', ''photo_10.jpg'', ''image_abc.jpg'']"
      and imgs' = "[]" and ext = "''webp''" and n = 340282366920938463463374607431768211456
      and ct = "[]" and url = "[]"]
  note t2 = starting_num_is_max_plus_one [where imgs = "[''image_5.gif'', ''image_1.jpg'', ''image_2.png'']"
      and imgs' = "[''image_1.jpg'', ''image_2.png'', ''image_5.gif'', ''image_2.png'']"
      and ext = "''webp''" and n = 0 and ct = "[]" and url = "[]"]
  have h1: "\<forall>img \<in> set [''notes.txt'', ''photo_10.jpg'', ''image_abc.jpg'']. matched_number img = None"
    by code_simp
  have h2: "set [''image_5.gif'', ''image_1.jpg'', ''image_2.png'']
      = set [''image_1.jpg'', ''image_2.png'', ''image_5.gif'', ''image_2.png'']"
    by code_simp
  have h3: "''webp'' \<noteq> [] \<and> is_word (hd ''webp'')"
    by code_simp
  from t1 h1 have a: "starting_num [''notes.txt'', ''photo_10.jpg'', ''image_abc.jpg''] = 1"
    by blast
  from t2 h2 have b: "starting_num [''image_5.gif'', ''image_1.jpg'', ''image_2.png'']
       = starting_num [''image_1.jpg'', ''image_2.png'', ''image_5.gif'', ''image_2.png'']"
    by blast
  from t1 have c: "starting_num [''image_1.jpg'', ''image_2.png'', ''image_5.gif''] = 6"
    by blast
  from t1 h3 have d: "matched_number (''image_'' @ str_nat 340282366920938463463374607431768211456 @ ''.'' @ ''webp'')
       = Some 340282366920938463463374607431768211456"
    by blast
  from t1 h3 have e: "starting_num [''image_'' @ str_nat 340282366920938463463374607431768211456 @ ''.'' @ ''webp'']
       = 340282366920938463463374607431768211456 + 1"
    by blast
  from a b c d e show ?thesis
    by (intro conjI)
qed

lemma matched_number_None: "matched_number name = None \<longleftrightarrow> re_search name = None"
  by (simp add: matched_number_def)

lemma re_search_None_occurs:
  "re_search name = None \<longleftrightarrow> \<not> (\<exists>pre ds. occurs_at name pre ds)"
proof -
  have "(\<exists>pre ds. occurs_at name pre ds)
      \<longleftrightarrow> (\<exists>pre suf. name = pre @ suf \<and> match_here suf \<noteq> None)"
    unfolding occurs_at_match by auto
  then show ?thesis
    unfolding re_search_None by auto
qed

lemma leftmost_occurrence_wins:
  assumes "occurs_at name pre ds"
    and "\<forall>pre' ds'. occurs_at name pre' ds' \<longrightarrow> length pre \<le> length pre'"
  shows "re_search name = Some ds"
proof -
  from assms(1) obtain suf where s: "name = pre @ suf" "match_here suf = Some ds"
    unfolding occurs_at_match by blast
  have "\<forall>pre' suf'. pre @ suf = pre' @ suf' \<and> length pre' < length pre \<longrightarrow> match_here suf' = None"
  proof (intro allI impI)
    fix pre' suf' assume a: "pre @ suf = pre' @ suf' \<and> length pre' < length pre"
    show "match_here suf' = None"
    proof (cases "match_here suf'")
      case (Some ds')
      with a s(1) have "occurs_at name pre' ds'"
        unfolding occurs_at_match by auto
      with assms(2) have "length pre \<le> length pre'"
        by blast
      with a show ?thesis
        by simp
    qed simp
  qed
  with s(2) show ?thesis
    unfolding s(1) by (rule re_search_leftmost)
qed

lemma re_search_is_leftmost_occurrence:
  assumes "re_search name = Some ds"
  shows "\<exists>pre. occurs_at name pre ds
     \<and> (\<forall>pre' ds'. occurs_at name pre' ds' \<longrightarrow> length pre \<le> length pre')"
proof -
  from re_search_Some [OF assms] obtain pre suf where
    s: "name = pre @ suf" "match_here suf = Some ds"
      "\<forall>pre' suf'. name = pre' @ suf' \<and> length pre' < length pre \<longrightarrow> match_here suf' = None"
    by blast
  have o: "occurs_at name pre ds"
    unfolding occurs_at_match using s(1,2) by blast
  have "\<forall>pre' ds'. occurs_at name pre' ds' \<longrightarrow> length pre \<le> length pre'"
  proof (intro allI impI)
    fix pre' ds' assume "occurs_at name pre' ds'"
    then obtain suf' where s': "name = pre' @ suf'" "match_here suf' = Some ds'"
      unfolding occurs_at_match by blast
    show "length pre \<le> length pre'"
    proof (rule ccontr)
      assume "\<not> length pre \<le> length pre'"
      then have "length pre' < length pre"
        by simp
      with s(3) s'(1) have "match_here suf' = None"
        by blast
      with s'(2) show False
        by simp
    qed
  qed
  with o show ?thesis
    by blast
qed

text \<open>
  C9 (amended). A name is counted exactly when it contains, at some position, the text
  \<open>image_\<close> followed by one or more decimal digits, a dot and a word character; a name
  without such an occurrence is ignored, and removing it from the listing leaves the
  starting number as it is. The number of a counted name is the one of its leftmost
  occurrence. So \<open>photo_1.jpg\<close>, \<open>image_abc.jpg\<close> and \<open>image_1_2.jpg\<close> are ignored,
  and \<open>image_3.jpg_image_9.png\<close> counts as 3.
\<close>

theorem scan_counts_names_containing_the_pattern:
  "(matched_number name = None \<longleftrightarrow> \<not> (\<exists>pre ds. occurs_at name pre ds))
   \<and> (matched_number name = None \<longrightarrow>
        starting_num (xs @ name # ys) = starting_num (xs @ ys))
   \<and> (occurs_at name pre ds
        \<and> (\<forall>pre' ds'. occurs_at name pre' ds' \<longrightarrow> length pre \<le> length pre')
        \<longrightarrow> matched_number name = Some (py_int ds))
   \<and> (matched_number name = Some num \<longrightarrow>
        (\<exists>pre ds. occurs_at name pre ds \<and> num = py_int ds
           \<and> (\<forall>pre' ds'. occurs_at name pre' ds' \<longrightarrow> length pre \<le> length pre')))
   \<and> matched_number ''photo_1.jpg'' = None
   \<and> matched_number ''image_abc.jpg'' = None
   \<and> matched_number ''image_1_2.jpg'' = None
   \<and> matched_number ''image_3.jpg_image_9.png'' = Some 3"
proof (intro conjI impI)
  show "matched_number name = None \<longleftrightarrow> \<not> (\<exists>pre ds. occurs_at name pre ds)"
    unfolding matched_number_None by (rule re_search_None_occurs)
  show "matched_number ''photo_1.jpg'' = None" "matched_number ''image_abc.jpg'' = None"
    "matched_number ''image_1_2.jpg'' = None" "matched_number ''image_3.jpg_image_9.png'' = Some 3"
    by code_simp+
next
  assume "matched_number name = None"
  then have "matched_numbers (xs @ name # ys) = matched_numbers (xs @ ys)"
    by (rule matched_numbers_ignored)
  then show "starting_num (xs @ name # ys) = starting_num (xs @ ys)"
    by (simp add: starting_num_Max)
next
  assume "occurs_at name pre ds
        \<and> (\<forall>pre' ds'. occurs_at name pre' ds' \<longrightarrow> length pre \<le> length pre')"
  then have "re_search name = Some ds"
    using leftmost_occurrence_wins by blast
  then show "matched_number name = Some (py_int ds)"
    by (simp add: matched_number_def)
next
  assume "matched_number name = Some num"
  then obtain ds where d: "re_search name = Some ds" "num = py_int ds"
    by (auto simp: matched_number_def)
  from re_search_is_leftmost_occurrence [OF d(1)] d(2)
  show "\<exists>pre ds. occurs_at name pre ds \<and> num = py_int ds
           \<and> (\<forall>pre' ds'. occurs_at name pre' ds' \<longrightarrow> length pre \<le> length pre')"
    by blast
qed

theorem scan_counts_names_containing_the_pattern_witness:
  "matched_number ''photo_1.jpg'' = None
   \<and> starting_num ([''image_4.png''] @ ''photo_1.jpg'' # [''image_2.jpg''])
       = starting_num ([''image_4.png''] @ [''image_2.jpg''])
   \<and> occurs_at ''my_image_7.jpg'' ''my_'' ''7''
   \<and> matched_number ''my_image_7.jpg'' = Some (py_int ''7'')"
proof -
  note t1 = scan_counts_names_containing_the_pattern [where name = "''photo_1.jpg''"
      and xs = "[''image_4.png'']" and ys = "[''image_2.jpg'']" and pre = "[]" and ds = "[]"
      and num = 0]
  note t2 = scan_counts_names_containing_the_pattern [where name = "''my_image_7.jpg''"
      and xs = "[]" and ys = "[]" and pre = "''my_''" and ds = "''7''" and num = 7]
  have h1: "matched_number ''photo_1.jpg'' = None"
    by code_simp
  from t1 h1 have a: "starting_num ([''image_4.png''] @ ''photo_1.jpg'' # [''image_2.jpg''])
       = starting_num ([''image_4.png''] @ [''image_2.jpg''])"
    by blast
  have o7: "occurs_at ''my_image_7.jpg'' ''my_'' ''7''"
    unfolding occurs_at_def
    by (intro exI [of _ "CHR ''j''"] exI [of _ "''pg''"]) code_simp
  have lm: "\<forall>pre' ds'. occurs_at ''my_image_7.jpg'' pre' ds' \<longrightarrow> length ''my_'' \<le> length pre'"
  proof (intro allI impI)
    fix pre' ds' assume "occurs_at ''my_image_7.jpg'' pre' ds'"
    then obtain suf' where s: "''my_image_7.jpg'' = pre' @ suf'" "match_here suf' = Some ds'"
      unfolding occurs_at_match by blast
    show "length ''my_'' \<le> length pre'"
    proof (rule ccontr)
      assume "\<not> length ''my_'' \<le> length pre'"
      then have l: "length pre' < 3" by simp
      from s(1) have p: "pre' = take (length pre') ''my_image_7.jpg''"
        and q: "suf' = drop (length pre') ''my_image_7.jpg''"
        by (metis append_eq_conv_conj)+
      from l have "length pre' = 0 \<or> length pre' = 1 \<or> length pre' = 2"
        by arith
      moreover have "match_here (drop 0 ''my_image_7.jpg'') = None"
        "match_here (drop 1 ''my_image_7.jpg'') = None"
        "match_here (drop 2 ''my_image_7.jpg'') = None"
        by code_simp+
      ultimately have "match_here suf' = None"
        using q by metis
      with s(2) show False by simp
    qed
  qed
  from t2 o7 lm have b: "matched_number ''my_image_7.jpg'' = Some (py_int ''7'')"
    by blast
  from h1 a o7 b show ?thesis
    by (intro conjI)
qed

text \<open>
  C9 as stated fails for a name that does not begin with \<open>image_\<close> but contains the
  pattern further on: the search is not anchored, and \<open>my_image_7.jpg\<close> moves the
  starting number from 1 to 8.
\<close>

theorem name_with_other_prefix_is_counted_counterexample:
  "\<not> prefix ''image_'' ''my_image_7.jpg''
   \<and> matched_number ''my_image_7.jpg'' = Some 7
   \<and> starting_num [] = 1
   \<and> starting_num [''my_image_7.jpg''] = 8"
  by code_simp

section \<open>Output numbers within a run\<close>

lemma item_writes_names:
  "(nm, d) \<in> set (item_writes e start i u) \<Longrightarrow>
   \<exists>c. nm = image_name (start + i) (get_file_extension c u)"
  by (auto simp: item_writes_def split: sum.splits)

lemma distinct_item_writes:
  "distinct (map fst ps) \<Longrightarrow>
   distinct (map fst (concat (map (\<lambda>(i, u). item_writes e start i u) ps)))"
proof (induction ps)
  case Nil
  then show ?case by simp
next
  case (Cons p ps)
  obtain i u where p: "p = (i, u)"
    by (cases p)
  from Cons.prems p have i: "i \<notin> fst ` set ps" and dps: "distinct (map fst ps)"
    by simp_all
  have d1: "distinct (map fst (item_writes e start i u))"
    by (simp add: item_writes_def split: sum.splits)
  have d2: "distinct (map fst (concat (map (\<lambda>(i, u). item_writes e start i u) ps)))"
    using dps by (rule Cons.IH)
  have d3: "set (map fst (item_writes e start i u))
      \<inter> set (map fst (concat (map (\<lambda>(i, u). item_writes e start i u) ps))) = {}"
  proof (rule ccontr)
    assume "set (map fst (item_writes e start i u))
      \<inter> set (map fst (concat (map (\<lambda>(i, u). item_writes e start i u) ps))) \<noteq> {}"
    then obtain nm d d' j u' where
      a: "(nm, d) \<in> set (item_writes e start i u)" and
      b: "(j, u') \<in> set ps" "(nm, d') \<in> set (item_writes e start j u')"
      by auto
    from item_writes_names [OF a] item_writes_names [OF b(2)] obtain c c' where
      "image_name (start + i) (get_file_extension c u)
         = image_name (start + j) (get_file_extension c' u')"
      by auto
    then have "start + i = start + j"
      by (rule image_name_inj)
    with b(1) i show False
      by force
  qed
  from d1 d2 d3 show ?case
    unfolding p by simp
qed

lemma map_fst_positions: "map fst (positions idx items) = [idx..<idx + length items]"
  by (simp add: positions_def)

lemma positions_nth:
  "i < length items \<Longrightarrow> (idx + i, snd (items ! i)) \<in> set (positions idx items)"
  by (auto simp: positions_def in_set_enumerate_eq)

lemma length_item_writes:
  "length (item_writes e start i u) = (if succeeds e i u then 1 else 0)"
  by (simp add: item_writes_def succeeds_def split: sum.splits)

lemma length_concat_item_writes:
  "length (concat (map (\<lambda>(i, u). item_writes e start i u) ps))
     = length (filter (\<lambda>(i, u). succeeds e i u) ps)"
  by (induction ps) (simp_all add: length_item_writes split_def)

lemma download_writes:
  "\<exists>k \<le> length valid_urls. \<exists>st summ.
     download e start valid_urls dir = (summ, k, st)
     \<and> writes (trace st) = concat (map (\<lambda>(i, u). item_writes e start i u)
                            (positions 0 (take k valid_urls)))
     \<and> files st = dir ++ map_of (rev (writes (trace st)))
     \<and> length (writes (trace st)) = successful st"
proof -
  from download_loop_stops [of valid_urls e 0] obtain k where
    k: "k \<le> length valid_urls" "\<forall>i<k. \<not> flag e i" "k < length valid_urls \<longrightarrow> flag e k"
    by auto
  define st' where "st' = process_all e start (length valid_urls) 0 (take k valid_urls) (init_state dir)"
  define st where "st = (if k < length valid_urls
               then st'\<lparr>trace := trace st' @
                      [Status (''Cancelled. Downloaded '' @ str_nat (successful st') @ '' images.'')]\<rparr>
               else st')"
  have d: "download e start valid_urls dir = (summarize e (length valid_urls) k st, k, st)"
    using download_until_flag [OF k, of start dir]
    by (simp add: Let_def st_def st'_def)
  have wr: "writes (trace st') = concat (map (\<lambda>(i, u). item_writes e start i u)
                            (positions 0 (take k valid_urls)))"
    unfolding st'_def process_all_trace by simp
  have fi: "files st' = dir ++ map_of (rev (writes (trace st')))"
    unfolding wr unfolding st'_def process_all_files by simp
  have su: "length (writes (trace st')) = successful st'"
    unfolding wr length_concat_item_writes unfolding st'_def process_all_counts by simp
  have eqs: "successful st = successful st'" "writes (trace st) = writes (trace st')"
    "files st = files st'"
    by (simp_all add: st_def)
  from k(1) d wr fi su show ?thesis
    unfolding eqs [symmetric] by blast
qed

text \<open>
  C6. In every run the files written are those of the successful items among the items
  processed, in order, the item at position \<open>i\<close> under the number \<open>start + i\<close>
  whether or not earlier items failed; the positions processed are \<open>0, 1, ...\<close> without
  repetition; file names of different numbers differ, so no two writes of a run go to
  the same name; there is one write per success; and at the end each successful item's
  payload is the content of the file with its own number.
\<close>

theorem output_index_never_reused:
  "(case download e start valid_urls dir of
      (summ, processed, st) \<Rightarrow>
        processed \<le> length valid_urls
        \<and> writes (trace st) = concat (map (\<lambda>(i, u). item_writes e start i u)
                                (positions 0 (take processed valid_urls)))
        \<and> map fst (positions 0 (take processed valid_urls)) = [0..<processed]
        \<and> distinct (map fst (writes (trace st)))
        \<and> length (writes (trace st)) = successful st
        \<and> (\<forall>i<processed. \<forall>r. item_outcome e i (snd (valid_urls ! i)) = Inr r \<longrightarrow>
              (image_name (start + i) (get_file_extension (header_value r) (snd (valid_urls ! i))),
               content r) \<in> set (writes (trace st))
              \<and> files st (image_name (start + i)
                   (get_file_extension (header_value r) (snd (valid_urls ! i))))
                 = Some (content r)))
   \<and> (image_name a (get_file_extension c u) = image_name b (get_file_extension c' u')
        \<longrightarrow> a = b)"
proof (intro conjI impI)
  assume "image_name a (get_file_extension c u) = image_name b (get_file_extension c' u')"
  then show "a = b"
    by (rule image_name_inj)
next
  from download_writes [of valid_urls e start dir] obtain k st summ where
    k: "k \<le> length valid_urls" and
    d: "download e start valid_urls dir = (summ, k, st)" and
    wr: "writes (trace st) = concat (map (\<lambda>(i, u). item_writes e start i u)
                            (positions 0 (take k valid_urls)))" and
    fi: "files st = dir ++ map_of (rev (writes (trace st)))" and
    su: "length (writes (trace st)) = successful st"
    by blast
  have len: "length (take k valid_urls) = k"
    using k by simp
  have mf: "map fst (positions 0 (take k valid_urls)) = [0..<k]"
    unfolding map_fst_positions len by simp
  have di: "distinct (map fst (writes (trace st)))"
    unfolding wr by (rule distinct_item_writes) (simp add: mf)
  have fw: "(image_name (start + i) (get_file_extension (header_value r) (snd (valid_urls ! i))),
               content r) \<in> set (writes (trace st))
            \<and> files st (image_name (start + i)
                 (get_file_extension (header_value r) (snd (valid_urls ! i))))
               = Some (content r)"
    if i: "i < k" and o: "item_outcome e i (snd (valid_urls ! i)) = Inr r" for i r
  proof -
    let ?u = "snd (valid_urls ! i)"
    let ?nm = "image_name (start + i) (get_file_extension (header_value r) ?u)"
    from i len have "(0 + i, snd (take k valid_urls ! i)) \<in> set (positions 0 (take k valid_urls))"
      by (intro positions_nth) simp
    with i have m: "(i, ?u) \<in> set (positions 0 (take k valid_urls))"
      by simp
    have "(?nm, content r) \<in> set (item_writes e start i ?u)"
      by (simp add: item_writes_def o)
    with m have w: "(?nm, content r) \<in> set (writes (trace st))"
      unfolding wr by force
    then have "(?nm, content r) \<in> set (rev (writes (trace st)))"
      by simp
    moreover have "distinct (map fst (rev (writes (trace st))))"
      using di by (simp add: rev_map [symmetric])
    ultimately have "map_of (rev (writes (trace st))) ?nm = Some (content r)"
      by (intro map_of_is_SomeI)
    then have "files st ?nm = Some (content r)"
      unfolding fi by (simp add: map_add_def)
    with w show ?thesis
      by blast
  qed
  from k wr mf di su fw show "case download e start valid_urls dir of
      (summ, processed, st) \<Rightarrow>
        processed \<le> length valid_urls
        \<and> writes (trace st) = concat (map (\<lambda>(i, u). item_writes e start i u)
                                (positions 0 (take processed valid_urls)))
        \<and> map fst (positions 0 (take processed valid_urls)) = [0..<processed]
        \<and> distinct (map fst (writes (trace st)))
        \<and> length (writes (trace st)) = successful st
        \<and> (\<forall>i<processed. \<forall>r. item_outcome e i (snd (valid_urls ! i)) = Inr r \<longrightarrow>
              (image_name (start + i) (get_file_extension (header_value r) (snd (valid_urls ! i))),
               content r) \<in> set (writes (trace st))
              \<and> files st (image_name (start + i)
                   (get_file_extension (header_value r) (snd (valid_urls ! i))))
                 = Some (content r))"
    unfolding d prod.case by blast
qed

theorem output_index_never_reused_witness:
  "map fst (writes (trace (snd (snd (download (sample_env sample_net (\<lambda>k. False)) 1 sample_urls
       Map.empty))))) = [''image_1.png'', ''image_4.png'']
   \<and> distinct (map fst (writes (trace (snd (snd (download (sample_env sample_net (\<lambda>k. False)) 1
       sample_urls Map.empty))))))
   \<and> files (snd (snd (download (sample_env sample_net (\<lambda>k. False)) 1 sample_urls Map.empty)))
        (image_name (1 + 3)
           (get_file_extension (header_value (sample_response 200 200)) (snd (sample_urls ! 3))))
       = Some (content (sample_response 200 200))
   \<and> image_name (1 + 3)
        (get_file_extension (header_value (sample_response 200 200)) (snd (sample_urls ! 3)))
       = ''image_4.png''"
proof -
  let ?e = "sample_env sample_net (\<lambda>k. False)"
  note t = output_index_never_reused [where e = ?e and start = 1 and valid_urls = sample_urls
      and dir = Map.empty and a = 7 and b = 7 and c = "[]" and c' = "[]" and u = "[]" and u' = "[]"]
  note c = t [THEN conjunct1]
  obtain summ processed st where d: "download ?e 1 sample_urls Map.empty = (summ, processed, st)"
    by (rule prod_cases3)
  have "fst (snd (download ?e 1 sample_urls Map.empty)) = 4"
    by code_simp
  then have p: "processed = 4"
    unfolding d snd_conv fst_conv .
  have o: "item_outcome ?e 3 (snd (sample_urls ! 3)) = Inr (sample_response 200 200)"
    by code_simp
  have l: "(3::nat) < 4"
    by simp
  from c have c': "distinct (map fst (writes (trace st)))
      \<and> (\<forall>i<4. \<forall>r. item_outcome ?e i (snd (sample_urls ! i)) = Inr r \<longrightarrow>
              (image_name (1 + i) (get_file_extension (header_value r) (snd (sample_urls ! i))),
               content r) \<in> set (writes (trace st))
              \<and> files st (image_name (1 + i)
                   (get_file_extension (header_value r) (snd (sample_urls ! i))))
                 = Some (content r))"
    unfolding d prod.case p by blast
  from c' have a1: "distinct (map fst (writes (trace st)))"
    by (rule conjunct1)
  from c' l o have a2: "files st (image_name (1 + 3)
           (get_file_extension (header_value (sample_response 200 200)) (snd (sample_urls ! 3))))
       = Some (content (sample_response 200 200))"
    by blast
  have a0: "map fst (writes (trace (snd (snd (download ?e 1 sample_urls Map.empty)))))
      = [''image_1.png'', ''image_4.png'']"
    by code_simp
  have a3: "image_name (1 + 3)
        (get_file_extension (header_value (sample_response 200 200)) (snd (sample_urls ! 3)))
       = ''image_4.png''"
    by code_simp
  from a0 a1 a2 a3 show ?thesis
    unfolding d snd_conv by (intro conjI)
qed

end
